theory Spec2Isabelle
  imports Complex_Main "HOL-Library.Word" "HOL-Library.Log_Nat"
begin

section \<open>The colour engine of the darkroom simulator\<close>

text \<open>
  This theory embeds \<^verbatim>\<open>src/utils/colorLogic.ts\<close> (\<^verbatim>\<open>calculateDelta\<close>,
  \<^verbatim>\<open>formatValue\<close>, \<^verbatim>\<open>clamp\<close>, \<^verbatim>\<open>processImageBuffer\<close>) together with the
  parts of the JavaScript platform the functions rely on: the arithmetic of
  \<^verbatim>\<open>number\<close>, \<^verbatim>\<open>Math.round\<close>, \<^verbatim>\<open>Math.min\<close>, \<^verbatim>\<open>Math.max\<close>, and element reads and
  writes of a \<^verbatim>\<open>Uint8ClampedArray\<close>.
\<close>

subsection \<open>JavaScript numbers, read as exact reals\<close>

text \<open>
  A \<^verbatim>\<open>number\<close> is either \<^verbatim>\<open>NaN\<close> or a finite value. In this first reading finite
  values are the exact reals: the rounding of IEEE-754 doubles, the two infinities and the
  sign of zero are left out. It serves the properties that are about decimal values or that
  do not depend on the arithmetic at all. The bytes a pass stores and the strictness of a
  comparison do depend on the rounding of doubles; for them the same functions are embedded
  a second time over binary64 arithmetic, further down. \<^verbatim>\<open>NaN\<close> is kept because the
  code can produce it: reading a typed array past its end gives \<^verbatim>\<open>undefined\<close>, which
  arithmetic turns into \<^verbatim>\<open>NaN\<close>. The operators propagate \<^verbatim>\<open>NaN\<close>; a comparison with
  \<^verbatim>\<open>NaN\<close> is false. Division by zero, which would give an infinity, is given as
  \<^verbatim>\<open>NaN\<close>; the code only ever divides by the constant 10.
\<close>

datatype number = NaN | Num real

instantiation number :: "{plus, minus, times, inverse, ord}"
begin

fun plus_number :: "number \<Rightarrow> number \<Rightarrow> number" where
  "plus_number (Num a) (Num b) = Num (a + b)"
| "plus_number _ _ = NaN"

fun minus_number :: "number \<Rightarrow> number \<Rightarrow> number" where
  "minus_number (Num a) (Num b) = Num (a - b)"
| "minus_number _ _ = NaN"

fun times_number :: "number \<Rightarrow> number \<Rightarrow> number" where
  "times_number (Num a) (Num b) = Num (a * b)"
| "times_number _ _ = NaN"

fun divide_number :: "number \<Rightarrow> number \<Rightarrow> number" where
  "divide_number (Num a) (Num b) = (if b = 0 then NaN else Num (a / b))"
| "divide_number _ _ = NaN"

definition inverse_number :: "number \<Rightarrow> number" where
  "inverse_number a =
     (case a of NaN \<Rightarrow> NaN | Num b \<Rightarrow> if b = 0 then NaN else Num (1 / b))"

fun less_number :: "number \<Rightarrow> number \<Rightarrow> bool" where
  "less_number (Num a) (Num b) = (a < b)"
| "less_number _ _ = False"

fun less_eq_number :: "number \<Rightarrow> number \<Rightarrow> bool" where
  "less_eq_number (Num a) (Num b) = (a \<le> b)"
| "less_eq_number _ _ = False"

instance ..

end

text \<open>
  \<^verbatim>\<open>Math.round(x)\<close>: the integer closest to \<open>x\<close>; of two equally close integers the
  one towards \<open>+\<infinity>\<close>. \<^verbatim>\<open>Math.min\<close> and \<^verbatim>\<open>Math.max\<close> return \<^verbatim>\<open>NaN\<close> when an
  argument is \<^verbatim>\<open>NaN\<close>.
\<close>

fun Math_round :: "number \<Rightarrow> number" where
  "Math_round NaN = NaN"
| "Math_round (Num x) = Num (of_int \<lfloor>x + 1 / 2\<rfloor>)"

fun Math_min :: "number \<Rightarrow> number \<Rightarrow> number" where
  "Math_min (Num a) (Num b) = Num (min a b)"
| "Math_min _ _ = NaN"

fun Math_max :: "number \<Rightarrow> number \<Rightarrow> number" where
  "Math_max (Num a) (Num b) = Num (max a b)"
| "Math_max _ _ = NaN"

subsection \<open>Typed arrays and the store\<close>

text \<open>
  A \<^verbatim>\<open>Uint8ClampedArray\<close> is a fixed-length sequence of unsigned 8-bit samples.
  \<^verbatim>\<open>processImageBuffer\<close> mutates its \<^verbatim>\<open>destination\<close> argument in place, and the two
  arguments may be the same object, so arrays live in a store addressed by
  references. Every array owns its storage: two views over one \<^verbatim>\<open>ArrayBuffer\<close> are
  not modelled.
\<close>

type_synonym sample = "8 word"
type_synonym Uint8ClampedArray = "sample list"
type_synonym ref = nat
type_synonym store = "ref \<Rightarrow> Uint8ClampedArray"

text \<open>
  The conversion a \<^verbatim>\<open>Uint8ClampedArray\<close> applies to a stored number (ECMAScript
  \<^verbatim>\<open>ToUint8Clamp\<close>): \<^verbatim>\<open>NaN\<close> becomes 0, the value is clamped to \<open>[0, 255]\<close> and then
  rounded to the nearest integer, a tie going to the even neighbour.
\<close>

definition ToUint8Clamp :: "number \<Rightarrow> nat" where
  "ToUint8Clamp v =
     (case v of
        NaN \<Rightarrow> 0
      | Num x \<Rightarrow>
          (let clamped = min (max x 0) 255;
               f = \<lfloor>clamped\<rfloor>
           in if clamped < of_int f + 1 / 2 then nat f
              else if clamped > of_int f + 1 / 2 then nat (f + 1)
              else if even f then nat f else nat (f + 1)))"

text \<open>
  \<^verbatim>\<open>a[k]\<close> as an operand: the sample as a number, or \<^verbatim>\<open>undefined\<close> past the end,
  which every use in this program converts to \<^verbatim>\<open>NaN\<close>.
\<close>

definition rd :: "Uint8ClampedArray \<Rightarrow> nat \<Rightarrow> number" where
  "rd a k = (if k < length a then Num (real (unat (a ! k))) else NaN)"

text \<open>\<^verbatim>\<open>a[k] = v\<close>: a write past the end of a typed array is ignored.\<close>

definition wr :: "Uint8ClampedArray \<Rightarrow> nat \<Rightarrow> number \<Rightarrow> Uint8ClampedArray" where
  "wr a k v = (if k < length a then a[k := word_of_nat (ToUint8Clamp v)] else a)"

definition store_wr :: "store \<Rightarrow> ref \<Rightarrow> nat \<Rightarrow> number \<Rightarrow> store" where
  "store_wr h p k v = h(p := wr (h p) k v)"

subsection \<open>The functions of colorLogic.ts\<close>

text \<open>
  The interface \<^verbatim>\<open>CMYValues\<close> has the fields \<^verbatim>\<open>c\<close>, \<^verbatim>\<open>m\<close> and \<^verbatim>\<open>y\<close>; they are
  prefixed here so that they do not capture the variables of that name.
\<close>

record CMYValues =
  cmy_c :: number
  cmy_m :: number
  cmy_y :: number

definition calculateDelta :: "CMYValues \<Rightarrow> CMYValues \<Rightarrow> CMYValues" where
  "calculateDelta initial target =
     \<lparr> cmy_c = cmy_c target - cmy_c initial,
       cmy_m = cmy_m target - cmy_m initial,
       cmy_y = cmy_y target - cmy_y initial \<rparr>"

definition formatValue :: "number \<Rightarrow> number" where
  "formatValue val = Math_round (val * Num 10) / Num 10"

definition clamp :: "number \<Rightarrow> number" where
  "clamp val = Math_max (Num 0) (Math_min (Num 255) val)"

definition STRENGTH :: number where
  "STRENGTH = Num 1.8"

definition XTALK :: number where
  "XTALK = Num 0.15"

definition gainB :: "CMYValues \<Rightarrow> number" where
  "gainB delta = cmy_y delta * STRENGTH"

definition gainG :: "CMYValues \<Rightarrow> number" where
  "gainG delta = cmy_m delta * STRENGTH"

definition gainR :: "CMYValues \<Rightarrow> number" where
  "gainR delta = cmy_c delta * STRENGTH"

text \<open>The three mixed values of one pixel, before clamping.\<close>

definition newR :: "number \<Rightarrow> number \<Rightarrow> number \<Rightarrow> number \<Rightarrow> number" where
  "newR r gR gG gB = r + gR - (gG * XTALK) - (gB * XTALK)"

definition newG :: "number \<Rightarrow> number \<Rightarrow> number \<Rightarrow> number \<Rightarrow> number" where
  "newG g gR gG gB = g + gG - (gR * XTALK) - (gB * XTALK)"

definition newB :: "number \<Rightarrow> number \<Rightarrow> number \<Rightarrow> number \<Rightarrow> number" where
  "newB b gR gG gB = b + gB - (gR * XTALK) - (gG * XTALK)"

text \<open>
  One iteration of the loop at offset \<open>i\<close>: the three colour samples are read
  first, then the four writes happen in order; the alpha sample is read after the
  three colour writes.
\<close>

definition pixel_step ::
  "store \<Rightarrow> ref \<Rightarrow> ref \<Rightarrow> number \<Rightarrow> number \<Rightarrow> number \<Rightarrow> nat \<Rightarrow> store" where
  "pixel_step h source destination gR gG gB i =
     (let r = rd (h source) i;
          g = rd (h source) (i + 1);
          b = rd (h source) (i + 2);
          h1 = store_wr h destination i (clamp (newR r gR gG gB));
          h2 = store_wr h1 destination (i + 1) (clamp (newG g gR gG gB));
          h3 = store_wr h2 destination (i + 2) (clamp (newB b gR gG gB))
      in store_wr h3 destination (i + 3) (rd (h3 source) (i + 3)))"

text \<open>
  The loop \<^verbatim>\<open>for (let i = 0; i < source.length; i += 4)\<close>, entered at offset \<open>i\<close>.
  The length is read again at every test, as in the source.
\<close>

function pixel_loop ::
  "store \<Rightarrow> ref \<Rightarrow> ref \<Rightarrow> number \<Rightarrow> number \<Rightarrow> number \<Rightarrow> nat \<Rightarrow> store" where
  "pixel_loop h source destination gR gG gB i =
     (if i < length (h source)
      then pixel_loop (pixel_step h source destination gR gG gB i)
             source destination gR gG gB (i + 4)
      else h)"
  by pat_completeness auto
termination
  by (relation "measure (\<lambda>(h, source, destination, gR, gG, gB, i). length (h source) - i)")
     (auto simp: pixel_step_def store_wr_def wr_def Let_def)

definition processImageBuffer :: "store \<Rightarrow> ref \<Rightarrow> ref \<Rightarrow> CMYValues \<Rightarrow> store" where
  "processImageBuffer h source destination delta =
     pixel_loop h source destination (gainR delta) (gainG delta) (gainB delta) 0"

text \<open>
  The calling pattern of \<^verbatim>\<open>applyFilter\<close> in \<^verbatim>\<open>App.tsx\<close>: a fresh output image of the
  size of the original (\<^verbatim>\<open>createImageData\<close> gives transparent black, all samples 0)
  is filled by \<^verbatim>\<open>processImageBuffer\<close> from the cached original.
\<close>

definition transform :: "Uint8ClampedArray \<Rightarrow> CMYValues \<Rightarrow> Uint8ClampedArray" where
  "transform original delta =
     (let originalData = 0;
          outputImage = 1;
          h = (\<lambda>p. if p = originalData then original else replicate (length original) 0)
      in processImageBuffer h originalData outputImage delta outputImage)"

declare pixel_loop.simps [simp del]

subsection \<open>Auxiliary definitions\<close>

text \<open>
  The value assigned to \<^verbatim>\<open>destination[k]\<close> by the iteration that covers offset \<open>k\<close>: it
  depends on the source sample at the same offset only.
\<close>

definition assigned :: "Uint8ClampedArray \<Rightarrow> number \<Rightarrow> number \<Rightarrow> number \<Rightarrow> nat \<Rightarrow> number" where
  "assigned src gR gG gB k =
     (if k mod 4 = 0 then clamp (newR (rd src k) gR gG gB)
      else if k mod 4 = 1 then clamp (newG (rd src k) gR gG gB)
      else if k mod 4 = 2 then clamp (newB (rd src k) gR gG gB)
      else rd src k)"

text \<open>
  A stored sample \<open>w\<close> is an integer of \<open>[0, 255]\<close> nearest to the assigned value \<open>v\<close>
  (0 for \<^verbatim>\<open>NaN\<close>).
\<close>

definition nearest_sample :: "number \<Rightarrow> sample \<Rightarrow> bool" where
  "nearest_sample v w =
     (unat w \<le> 255 \<and>
      (case v of
         NaN \<Rightarrow> w = 0
       | Num x \<Rightarrow> 0 \<le> x \<and> x \<le> 255 \<and> \<bar>real (unat w) - x\<bar> \<le> 1 / 2))"

text \<open>Concrete pixels, deltas and a store with a source and a distinct destination.\<close>

definition grey_pixel :: Uint8ClampedArray where
  "grey_pixel = [128, 128, 128, 255]"

definition magenta10 :: CMYValues where
  "magenta10 = \<lparr> cmy_c = Num 0, cmy_m = Num 10, cmy_y = Num 0 \<rparr>"


definition example_store :: store where
  "example_store = (\<lambda>p. if p = 0 then grey_pixel else replicate 4 0)"

subsection \<open>Binary64 arithmetic\<close>

text \<open>
  A double is \<^verbatim>\<open>NaN\<close>, an infinity or a finite value; the finite values are the reals
  \<open>m * 2 ^ q\<close> with \<open>\<bar>m\<bar> < 2 ^ 53\<close> and \<open>- 1074 \<le> q \<le> 971\<close>. The sign of zero is
  not modelled: addition, subtraction, multiplication, \<^verbatim>\<open>Math.min\<close>, \<^verbatim>\<open>Math.max\<close>, the
  comparisons and the store conversion of the byte pipeline do not observe it.

  \<open>rhe\<close> rounds a real to the nearest integer, a tie to the even one. \<open>expo x\<close> is the
  binary exponent of \<open>x\<close>, the integer \<open>e\<close> with \<open>2 ^ e \<le> \<bar>x\<bar> < 2 ^ (e + 1)\<close>. \<open>fl x\<close> is
  \<open>x\<close> rounded to 53 significant bits, to nearest, ties to even, with the spacing of the
  subnormal range below \<open>2 ^ - 1022\<close>. \<open>round64\<close> is the result of an operation whose
  exact value is \<open>x\<close>: \<open>fl x\<close>, or an infinity when that reaches \<open>2 ^ 1024\<close>.
\<close>

definition rhe :: "real \<Rightarrow> int" where
  "rhe c =
     (let f = \<lfloor>c\<rfloor>
      in if c < of_int f + 1 / 2 then f
         else if c > of_int f + 1 / 2 then f + 1
         else if even f then f else f + 1)"

definition expo :: "real \<Rightarrow> int" where
  "expo x =
     (let a = \<bar>x\<bar>
      in if 1 \<le> a then bitlen \<lfloor>a\<rfloor> - 1 else - bitlen (\<lceil>1 / a\<rceil> - 1))"

definition fl :: "real \<Rightarrow> real" where
  "fl x = (let u = 2 powi (max (expo x) (- 1022) - 52) in of_int (rhe (x / u)) * u)"

datatype double = NaN64 | PosInf | NegInf | Fin real

definition round64 :: "real \<Rightarrow> double" where
  "round64 x =
     (let y = fl x
      in if 2 ^ 1024 \<le> \<bar>y\<bar> then (if 0 < y then PosInf else NegInf) else Fin y)"

text \<open>
  The operators: \<^verbatim>\<open>NaN\<close> propagates; \<open>\<infinity> - \<infinity>\<close> and \<open>0 * \<infinity>\<close> are \<^verbatim>\<open>NaN\<close>; an
  infinity otherwise absorbs a finite operand, with the sign of the product for a
  multiplication; two finite operands give the rounded exact result. A comparison with
  \<^verbatim>\<open>NaN\<close> is false.
\<close>

instantiation double :: "{plus, minus, times, ord}"
begin

fun plus_double :: "double \<Rightarrow> double \<Rightarrow> double" where
  "plus_double NaN64 _ = NaN64"
| "plus_double _ NaN64 = NaN64"
| "plus_double PosInf NegInf = NaN64"
| "plus_double NegInf PosInf = NaN64"
| "plus_double PosInf _ = PosInf"
| "plus_double _ PosInf = PosInf"
| "plus_double NegInf _ = NegInf"
| "plus_double _ NegInf = NegInf"
| "plus_double (Fin a) (Fin b) = round64 (a + b)"

fun minus_double :: "double \<Rightarrow> double \<Rightarrow> double" where
  "minus_double NaN64 _ = NaN64"
| "minus_double _ NaN64 = NaN64"
| "minus_double PosInf PosInf = NaN64"
| "minus_double NegInf NegInf = NaN64"
| "minus_double PosInf _ = PosInf"
| "minus_double _ PosInf = NegInf"
| "minus_double NegInf _ = NegInf"
| "minus_double _ NegInf = PosInf"
| "minus_double (Fin a) (Fin b) = round64 (a - b)"

fun times_double :: "double \<Rightarrow> double \<Rightarrow> double" where
  "times_double NaN64 _ = NaN64"
| "times_double _ NaN64 = NaN64"
| "times_double (Fin a) (Fin b) = round64 (a * b)"
| "times_double (Fin a) PosInf = (if a = 0 then NaN64 else if 0 < a then PosInf else NegInf)"
| "times_double (Fin a) NegInf = (if a = 0 then NaN64 else if 0 < a then NegInf else PosInf)"
| "times_double PosInf (Fin b) = (if b = 0 then NaN64 else if 0 < b then PosInf else NegInf)"
| "times_double NegInf (Fin b) = (if b = 0 then NaN64 else if 0 < b then NegInf else PosInf)"
| "times_double PosInf PosInf = PosInf"
| "times_double PosInf NegInf = NegInf"
| "times_double NegInf PosInf = NegInf"
| "times_double NegInf NegInf = PosInf"

fun less_double :: "double \<Rightarrow> double \<Rightarrow> bool" where
  "less_double (Fin a) (Fin b) = (a < b)"
| "less_double NegInf (Fin b) = True"
| "less_double NegInf PosInf = True"
| "less_double (Fin a) PosInf = True"
| "less_double _ _ = False"

fun less_eq_double :: "double \<Rightarrow> double \<Rightarrow> bool" where
  "less_eq_double (Fin a) (Fin b) = (a \<le> b)"
| "less_eq_double NegInf (Fin b) = True"
| "less_eq_double NegInf PosInf = True"
| "less_eq_double (Fin a) PosInf = True"
| "less_eq_double NegInf NegInf = True"
| "less_eq_double PosInf PosInf = True"
| "less_eq_double _ _ = False"

instance ..

end

text \<open>
  \<^verbatim>\<open>Math.min\<close> and \<^verbatim>\<open>Math.max\<close>, the store conversion, and array reads and writes, as
  before, with the infinities: the conversion sends \<open>+\<infinity>\<close> to 255 and \<open>-\<infinity>\<close> to 0.
\<close>

fun Math_min64 :: "double \<Rightarrow> double \<Rightarrow> double" where
  "Math_min64 NaN64 _ = NaN64"
| "Math_min64 _ NaN64 = NaN64"
| "Math_min64 a b = (if b < a then b else a)"

fun Math_max64 :: "double \<Rightarrow> double \<Rightarrow> double" where
  "Math_max64 NaN64 _ = NaN64"
| "Math_max64 _ NaN64 = NaN64"
| "Math_max64 a b = (if a < b then b else a)"

definition ToUint8Clamp64 :: "double \<Rightarrow> nat" where
  "ToUint8Clamp64 v =
     (case v of
        NaN64 \<Rightarrow> 0
      | PosInf \<Rightarrow> 255
      | NegInf \<Rightarrow> 0
      | Fin x \<Rightarrow> ToUint8Clamp (Num x))"

definition rd64 :: "Uint8ClampedArray \<Rightarrow> nat \<Rightarrow> double" where
  "rd64 a k = (if k < length a then Fin (real (unat (a ! k))) else NaN64)"

definition wr64 :: "Uint8ClampedArray \<Rightarrow> nat \<Rightarrow> double \<Rightarrow> Uint8ClampedArray" where
  "wr64 a k v = (if k < length a then a[k := word_of_nat (ToUint8Clamp64 v)] else a)"

definition store_wr64 :: "store \<Rightarrow> ref \<Rightarrow> nat \<Rightarrow> double \<Rightarrow> store" where
  "store_wr64 h p k v = h(p := wr64 (h p) k v)"

text \<open>
  The functions of \<^verbatim>\<open>colorLogic.ts\<close> over binary64. A numeric literal of the source
  denotes the double nearest to it: \<^verbatim>\<open>1.8\<close> is \<open>round64 1.8\<close>.
\<close>

record CMYValues64 =
  c64 :: double
  m64 :: double
  y64 :: double

definition clamp64 :: "double \<Rightarrow> double" where
  "clamp64 val = Math_max64 (Fin 0) (Math_min64 (Fin 255) val)"

definition STRENGTH64 :: double where
  "STRENGTH64 = round64 1.8"

definition XTALK64 :: double where
  "XTALK64 = round64 0.15"

definition gainB64 :: "CMYValues64 \<Rightarrow> double" where
  "gainB64 delta = y64 delta * STRENGTH64"

definition gainG64 :: "CMYValues64 \<Rightarrow> double" where
  "gainG64 delta = m64 delta * STRENGTH64"

definition gainR64 :: "CMYValues64 \<Rightarrow> double" where
  "gainR64 delta = c64 delta * STRENGTH64"

definition newR64 :: "double \<Rightarrow> double \<Rightarrow> double \<Rightarrow> double \<Rightarrow> double" where
  "newR64 r gR gG gB = r + gR - (gG * XTALK64) - (gB * XTALK64)"

definition newG64 :: "double \<Rightarrow> double \<Rightarrow> double \<Rightarrow> double \<Rightarrow> double" where
  "newG64 g gR gG gB = g + gG - (gR * XTALK64) - (gB * XTALK64)"

definition newB64 :: "double \<Rightarrow> double \<Rightarrow> double \<Rightarrow> double \<Rightarrow> double" where
  "newB64 b gR gG gB = b + gB - (gR * XTALK64) - (gG * XTALK64)"

definition pixel_step64 ::
  "store \<Rightarrow> ref \<Rightarrow> ref \<Rightarrow> double \<Rightarrow> double \<Rightarrow> double \<Rightarrow> nat \<Rightarrow> store" where
  "pixel_step64 h source destination gR gG gB i =
     (let r = rd64 (h source) i;
          g = rd64 (h source) (i + 1);
          b = rd64 (h source) (i + 2);
          h1 = store_wr64 h destination i (clamp64 (newR64 r gR gG gB));
          h2 = store_wr64 h1 destination (i + 1) (clamp64 (newG64 g gR gG gB));
          h3 = store_wr64 h2 destination (i + 2) (clamp64 (newB64 b gR gG gB))
      in store_wr64 h3 destination (i + 3) (rd64 (h3 source) (i + 3)))"

function pixel_loop64 ::
  "store \<Rightarrow> ref \<Rightarrow> ref \<Rightarrow> double \<Rightarrow> double \<Rightarrow> double \<Rightarrow> nat \<Rightarrow> store" where
  "pixel_loop64 h source destination gR gG gB i =
     (if i < length (h source)
      then pixel_loop64 (pixel_step64 h source destination gR gG gB i)
             source destination gR gG gB (i + 4)
      else h)"
  by pat_completeness auto
termination
  by (relation "measure (\<lambda>(h, source, destination, gR, gG, gB, i). length (h source) - i)")
     (auto simp: pixel_step64_def store_wr64_def wr64_def Let_def)

declare pixel_loop64.simps [simp del]

definition processImageBuffer64 :: "store \<Rightarrow> ref \<Rightarrow> ref \<Rightarrow> CMYValues64 \<Rightarrow> store" where
  "processImageBuffer64 h source destination delta =
     pixel_loop64 h source destination (gainR64 delta) (gainG64 delta) (gainB64 delta) 0"

definition transform64 :: "Uint8ClampedArray \<Rightarrow> CMYValues64 \<Rightarrow> Uint8ClampedArray" where
  "transform64 original delta =
     (let originalData = 0;
          outputImage = 1;
          h = (\<lambda>p. if p = originalData then original else replicate (length original) 0)
      in processImageBuffer64 h originalData outputImage delta outputImage)"

definition assigned64 :: "Uint8ClampedArray \<Rightarrow> double \<Rightarrow> double \<Rightarrow> double \<Rightarrow> nat \<Rightarrow> double" where
  "assigned64 src gR gG gB k =
     (if k mod 4 = 0 then clamp64 (newR64 (rd64 src k) gR gG gB)
      else if k mod 4 = 1 then clamp64 (newG64 (rd64 src k) gR gG gB)
      else if k mod 4 = 2 then clamp64 (newB64 (rd64 src k) gR gG gB)
      else rd64 src k)"

text \<open>
  Concrete deltas and pixels; the delta doubled; a value strictly inside \<open>(0, 255)\<close>; a
  first pixel none of whose three mixed values is clamped.
\<close>

definition tiny_magenta :: CMYValues64 where
  "tiny_magenta = \<lparr> c64 = Fin 0, m64 = Fin (1 / 2 ^ 60), y64 = Fin 0 \<rparr>"

definition magenta10_64 :: CMYValues64 where
  "magenta10_64 = \<lparr> c64 = Fin 0, m64 = Fin 10, y64 = Fin 0 \<rparr>"







section \<open>Properties of the exact reading\<close>

subsection \<open>The store conversion and the clamp helper\<close>

lemma length_wr [simp]: "length (wr a k v) = length a"
  by (simp add: wr_def)

lemma length_store_wr [simp]: "length (store_wr h p k v q) = length (h q)"
  by (simp add: store_wr_def)

lemma length_pixel_step [simp]:
  "length (pixel_step h source destination gR gG gB i q) = length (h q)"
  by (simp add: pixel_step_def Let_def)

lemma clamp_Num: "clamp (Num x) = Num (max 0 (min 255 x))"
  by (simp add: clamp_def)

lemma clamp_NaN: "clamp NaN = NaN"
  by (simp add: clamp_def)

lemma round_half_even_cases:
  fixes c :: real
  shows "(if c < of_int \<lfloor>c\<rfloor> + 1 / 2 then nat \<lfloor>c\<rfloor>
          else if c > of_int \<lfloor>c\<rfloor> + 1 / 2 then nat (\<lfloor>c\<rfloor> + 1)
          else if even \<lfloor>c\<rfloor> then nat \<lfloor>c\<rfloor> else nat (\<lfloor>c\<rfloor> + 1)) = nat \<lfloor>c\<rfloor>
           \<and> c - 1 / 2 \<le> of_int \<lfloor>c\<rfloor>
       \<or> (if c < of_int \<lfloor>c\<rfloor> + 1 / 2 then nat \<lfloor>c\<rfloor>
          else if c > of_int \<lfloor>c\<rfloor> + 1 / 2 then nat (\<lfloor>c\<rfloor> + 1)
          else if even \<lfloor>c\<rfloor> then nat \<lfloor>c\<rfloor> else nat (\<lfloor>c\<rfloor> + 1)) = nat (\<lfloor>c\<rfloor> + 1)
           \<and> of_int \<lfloor>c\<rfloor> + 1 / 2 \<le> c"
  by auto

lemma ToUint8Clamp_Num_cases:
  fixes x :: real
  defines "c \<equiv> min (max x 0) 255"
  shows "ToUint8Clamp (Num x) = nat \<lfloor>c\<rfloor> \<and> c - 1 / 2 \<le> of_int \<lfloor>c\<rfloor>
       \<or> ToUint8Clamp (Num x) = nat (\<lfloor>c\<rfloor> + 1) \<and> of_int \<lfloor>c\<rfloor> + 1 / 2 \<le> c"
  unfolding ToUint8Clamp_def number.case Let_def c_def
  by (rule round_half_even_cases)

lemma ToUint8Clamp_le: "ToUint8Clamp v \<le> 255"
proof (cases v)
  case NaN
  then show ?thesis by (simp add: ToUint8Clamp_def)
next
  case (Num x)
  define c where "c = min (max x 0) 255"
  have c: "0 \<le> c" "c \<le> 255" by (simp_all add: c_def)
  have f: "0 \<le> \<lfloor>c\<rfloor>" "\<lfloor>c\<rfloor> \<le> 255" using c by (simp_all add: floor_le_iff)
  then have nf: "nat \<lfloor>c\<rfloor> \<le> 255" by linarith
  consider "ToUint8Clamp (Num x) = nat \<lfloor>c\<rfloor>"
    | "ToUint8Clamp (Num x) = nat (\<lfloor>c\<rfloor> + 1)" "of_int \<lfloor>c\<rfloor> + 1 / 2 \<le> c"
    using ToUint8Clamp_Num_cases[of x] unfolding c_def by blast
  then show ?thesis
  proof cases
    case 1
    with nf Num show ?thesis by simp
  next
    case 2
    from 2(2) c(2) have "real_of_int \<lfloor>c\<rfloor> < 255" by linarith
    then have "nat (\<lfloor>c\<rfloor> + 1) \<le> 255" using f by linarith
    with 2(1) Num show ?thesis by simp
  qed
qed

lemma ToUint8Clamp_sample: "n \<le> 255 \<Longrightarrow> ToUint8Clamp (Num (real n)) = n"
  by (simp add: ToUint8Clamp_def Let_def)

lemma ToUint8Clamp_near:
  assumes "0 \<le> x" "x \<le> 255"
  shows "\<bar>real (ToUint8Clamp (Num x)) - x\<bar> \<le> 1 / 2"
proof -
  have c: "min (max x 0) 255 = x" using assms by simp
  have f: "0 \<le> \<lfloor>x\<rfloor>" using assms by simp
  have fl: "of_int \<lfloor>x\<rfloor> \<le> x" "x < of_int \<lfloor>x\<rfloor> + 1" by linarith+
  consider "ToUint8Clamp (Num x) = nat \<lfloor>x\<rfloor>" "x - 1 / 2 \<le> of_int \<lfloor>x\<rfloor>"
    | "ToUint8Clamp (Num x) = nat (\<lfloor>x\<rfloor> + 1)" "of_int \<lfloor>x\<rfloor> + 1 / 2 \<le> x"
    using ToUint8Clamp_Num_cases[of x] unfolding c by blast
  then show ?thesis
  proof cases
    case 1
    have "real (nat \<lfloor>x\<rfloor>) = of_int \<lfloor>x\<rfloor>" using f by simp
    with 1 fl show ?thesis by linarith
  next
    case 2
    have "real (nat (\<lfloor>x\<rfloor> + 1)) = of_int \<lfloor>x\<rfloor> + 1" using f by simp
    with 2 fl show ?thesis by linarith
  qed
qed

lemma unat_stored: "unat (word_of_nat (ToUint8Clamp v) :: sample) = ToUint8Clamp v"
  using ToUint8Clamp_le[of v] by (simp add: unat_of_nat take_bit_nat_eq_self)

lemma stored_sample: "word_of_nat (ToUint8Clamp (Num (real (unat (w :: sample))))) = w"
proof -
  have "unat w < 256" using unsigned_less[of w] by simp
  then have "ToUint8Clamp (Num (real (unat w))) = unat w"
    by (intro ToUint8Clamp_sample) simp
  then show ?thesis by simp
qed

subsection \<open>One iteration and the loop\<close>

lemma rd_wr_other: "j \<noteq> k \<Longrightarrow> rd (wr a k v) j = rd a j"
  by (simp add: rd_def wr_def)

lemma nth_wr: "j < length a \<Longrightarrow> wr a k v ! j = (if j = k then word_of_nat (ToUint8Clamp v) else a ! j)"
  by (simp add: wr_def)

lemma pixel_step_eq:
  assumes "i mod 4 = 0"
  shows "pixel_step h source destination gR gG gB i =
     h(destination :=
         wr (wr (wr (wr (h destination) i (assigned (h source) gR gG gB i))
                    (i + 1) (assigned (h source) gR gG gB (i + 1)))
                (i + 2) (assigned (h source) gR gG gB (i + 2)))
            (i + 3) (assigned (h source) gR gG gB (i + 3)))"
proof -
  have m: "(i + 1) mod 4 = 1" "(i + 2) mod 4 = 2" "(i + 3) mod 4 = 3"
    using assms by presburger+
  have a: "assigned (h source) gR gG gB i = clamp (newR (rd (h source) i) gR gG gB)"
    "assigned (h source) gR gG gB (i + 1) = clamp (newG (rd (h source) (i + 1)) gR gG gB)"
    "assigned (h source) gR gG gB (i + 2) = clamp (newB (rd (h source) (i + 2)) gR gG gB)"
    "assigned (h source) gR gG gB (i + 3) = rd (h source) (i + 3)"
    using assms m by (simp_all add: assigned_def)
  show ?thesis
  proof (cases "source = destination")
    case True
    then show ?thesis
      unfolding a by (simp add: pixel_step_def Let_def store_wr_def rd_wr_other)
  next
    case False
    then show ?thesis
      unfolding a by (simp add: pixel_step_def Let_def store_wr_def)
  qed
qed

lemma pixel_step_frame:
  "q \<noteq> destination \<Longrightarrow> pixel_step h source destination gR gG gB i q = h q"
  by (simp add: pixel_step_def Let_def store_wr_def)

lemma pixel_step_nth:
  assumes "i mod 4 = 0" "k < length (h destination)"
  shows "pixel_step h source destination gR gG gB i destination ! k =
     (if i \<le> k \<and> k < i + 4
      then word_of_nat (ToUint8Clamp (assigned (h source) gR gG gB k))
      else h destination ! k)"
proof -
  consider "k < i" | "k = i" | "k = i + 1" | "k = i + 2" | "k = i + 3" | "i + 4 \<le> k"
    by linarith
  then show ?thesis
    using assms(2) by cases (simp_all add: pixel_step_eq[OF assms(1)] nth_wr)
qed

lemma pixel_step_rd:
  assumes "i mod 4 = 0" "i + 4 \<le> k"
  shows "rd (pixel_step h source destination gR gG gB i q) k = rd (h q) k"
proof (cases "q = destination")
  case True
  show ?thesis
  proof (cases "k < length (h destination)")
    case True
    with assms \<open>q = destination\<close> show ?thesis
      by (simp add: rd_def pixel_step_nth)
  next
    case False
    with \<open>q = destination\<close> show ?thesis by (simp add: rd_def)
  qed
next
  case False
  then show ?thesis by (simp add: pixel_step_frame)
qed

lemma assigned_pixel_step:
  assumes "i mod 4 = 0" "i + 4 \<le> k"
  shows "assigned (pixel_step h source destination gR gG gB i q) gR' gG' gB' k =
         assigned (h q) gR' gG' gB' k"
  by (simp add: assigned_def pixel_step_rd[OF assms])

lemma pixel_loop_frame:
  "q \<noteq> destination \<Longrightarrow> pixel_loop h source destination gR gG gB i q = h q"
proof (induction h source destination gR gG gB i rule: pixel_loop.induct)
  case (1 h source destination gR gG gB i)
  show ?case
  proof (cases "i < length (h source)")
    case True
    with 1 show ?thesis
      by (simp add: pixel_step_frame pixel_loop.simps[of h])
  next
    case False
    then show ?thesis by (simp add: pixel_loop.simps[of h])
  qed
qed

lemma length_pixel_loop:
  "length (pixel_loop h source destination gR gG gB i q) = length (h q)"
proof (induction h source destination gR gG gB i rule: pixel_loop.induct)
  case (1 h source destination gR gG gB i)
  show ?case
  proof (cases "i < length (h source)")
    case True
    with 1 show ?thesis by (simp add: pixel_loop.simps[of h])
  next
    case False
    then show ?thesis by (simp add: pixel_loop.simps[of h])
  qed
qed

lemma pixel_loop_nth:
  assumes "i mod 4 = 0" "k < length (h destination)"
  shows "pixel_loop h source destination gR gG gB i destination ! k =
     (if i \<le> k \<and> k - k mod 4 < length (h source)
      then word_of_nat (ToUint8Clamp (assigned (h source) gR gG gB k))
      else h destination ! k)"
  using assms
proof (induction h source destination gR gG gB i rule: pixel_loop.induct)
  case (1 h source destination gR gG gB i)
  show ?case
  proof (cases "i < length (h source)")
    case True
    let ?h = "pixel_step h source destination gR gG gB i"
    have i4: "(i + 4) mod 4 = 0" using "1.prems"(1) by presburger
    have IH: "pixel_loop ?h source destination gR gG gB (i + 4) destination ! k =
      (if i + 4 \<le> k \<and> k - k mod 4 < length (h source)
       then word_of_nat (ToUint8Clamp (assigned (?h source) gR gG gB k))
       else ?h destination ! k)"
      using "1.IH"[OF True i4] "1.prems"(2) by simp
    have unfold: "pixel_loop h source destination gR gG gB i =
        pixel_loop ?h source destination gR gG gB (i + 4)"
      using True by (simp add: pixel_loop.simps[of h])
    show ?thesis
    proof (cases "i + 4 \<le> k")
      case True
      then show ?thesis
        unfolding unfold IH
        by (simp add: assigned_pixel_step[OF "1.prems"(1)] pixel_step_nth[of i k h destination, OF "1.prems"])
    next
      case False
      have base: "i \<le> k \<Longrightarrow> k - k mod 4 = i"
        using False "1.prems"(1) by presburger
      show ?thesis
        unfolding unfold IH using False True base
        by (simp add: pixel_step_nth[of i k h destination, OF "1.prems"])
    qed
  next
    case False
    have "k - k mod 4 < length (h source) \<Longrightarrow> i \<le> k \<Longrightarrow> False"
      using False "1.prems"(1) by presburger
    with False show ?thesis by (auto simp: pixel_loop.simps[of h])
  qed
qed

lemma processImageBuffer_nth:
  assumes "k < length (h destination)"
  shows "processImageBuffer h source destination delta destination ! k =
     (if k - k mod 4 < length (h source)
      then word_of_nat (ToUint8Clamp (assigned (h source) (gainR delta) (gainG delta) (gainB delta) k))
      else h destination ! k)"
  unfolding processImageBuffer_def
  using pixel_loop_nth[of 0 k h destination source "gainR delta" "gainG delta" "gainB delta"] assms
  by simp

lemma transform_eq_map:
  "transform original delta =
     map (\<lambda>k. word_of_nat (ToUint8Clamp (assigned original (gainR delta) (gainG delta) (gainB delta) k)))
       [0..<length original]"
proof (rule nth_equalityI)
  show "length (transform original delta) = length (map (\<lambda>k. word_of_nat (ToUint8Clamp (assigned original (gainR delta) (gainG delta) (gainB delta) k)) :: sample)
       [0..<length original])"
    by (simp add: transform_def processImageBuffer_def length_pixel_loop Let_def)
next
  fix k assume "k < length (transform original delta)"
  then have k: "k < length original"
    by (simp add: transform_def processImageBuffer_def length_pixel_loop Let_def)
  then have "k - k mod 4 < length original" by linarith
  with k show "transform original delta ! k = map (\<lambda>k. word_of_nat (ToUint8Clamp (assigned original (gainR delta) (gainG delta) (gainB delta) k)))
       [0..<length original] ! k"
    by (simp add: transform_def processImageBuffer_nth Let_def)
qed

lemma upt_4: "[0..<4] = [0, 1, 2, 3::nat]"
  by (simp add: upt_rec)

lemmas eval_defs = assigned_def rd_def clamp_def newR_def newG_def newB_def
  gainR_def gainG_def gainB_def STRENGTH_def XTALK_def ToUint8Clamp_def Let_def

lemma transform_grey: "transform grey_pixel magenta10 = [125, 146, 125, 255]"
  by (simp add: transform_eq_map grey_pixel_def magenta10_def upt_4 eval_defs)

subsection \<open>Claims settled on the exact reading\<close>

lemma assigned_cases:
  "k mod 4 = 0 \<Longrightarrow> assigned a gR gG gB k = clamp (newR (rd a k) gR gG gB)"
  "k mod 4 = 1 \<Longrightarrow> assigned a gR gG gB k = clamp (newG (rd a k) gR gG gB)"
  "k mod 4 = 2 \<Longrightarrow> assigned a gR gG gB k = clamp (newB (rd a k) gR gG gB)"
  "k mod 4 = 3 \<Longrightarrow> assigned a gR gG gB k = rd a k"
  by (simp_all add: assigned_def)

lemma processImageBuffer_written:
  assumes "k < length (h destination)" "k - k mod 4 < length (h source)"
  shows "processImageBuffer h source destination delta destination ! k =
     word_of_nat (ToUint8Clamp (assigned (h source) (gainR delta) (gainG delta) (gainB delta) k))"
  using processImageBuffer_nth[of k h destination source delta] assms by simp

lemma processImageBuffer_pixel:
  assumes "i mod 4 = 0" "i < length (h source)"
  shows
    "i < length (h destination) \<Longrightarrow>
       processImageBuffer h source destination delta destination ! i =
       word_of_nat (ToUint8Clamp (clamp (newR (rd (h source) i) (gainR delta) (gainG delta) (gainB delta))))"
    "i + 1 < length (h destination) \<Longrightarrow>
       processImageBuffer h source destination delta destination ! (i + 1) =
       word_of_nat (ToUint8Clamp (clamp (newG (rd (h source) (i + 1)) (gainR delta) (gainG delta) (gainB delta))))"
    "i + 2 < length (h destination) \<Longrightarrow>
       processImageBuffer h source destination delta destination ! (i + 2) =
       word_of_nat (ToUint8Clamp (clamp (newB (rd (h source) (i + 2)) (gainR delta) (gainG delta) (gainB delta))))"
    "i + 3 < length (h destination) \<Longrightarrow>
       processImageBuffer h source destination delta destination ! (i + 3) =
       word_of_nat (ToUint8Clamp (rd (h source) (i + 3)))"
proof -
  have m: "(i + 1) mod 4 = 1" "(i + 2) mod 4 = 2" "(i + 3) mod 4 = 3"
    using assms(1) by presburger+
  have b: "i - i mod 4 < length (h source)" "i + 1 - (i + 1) mod 4 < length (h source)"
    "i + 2 - (i + 2) mod 4 < length (h source)" "i + 3 - (i + 3) mod 4 < length (h source)"
    using assms m by simp_all
  show "i < length (h destination) \<Longrightarrow>
       processImageBuffer h source destination delta destination ! i =
       word_of_nat (ToUint8Clamp (clamp (newR (rd (h source) i) (gainR delta) (gainG delta) (gainB delta))))"
    using processImageBuffer_written[of "i" h destination source delta] b(1)
    by (simp only: assigned_cases(1)[OF assms(1)])
  show "i + 1 < length (h destination) \<Longrightarrow>
       processImageBuffer h source destination delta destination ! (i + 1) =
       word_of_nat (ToUint8Clamp (clamp (newG (rd (h source) (i + 1)) (gainR delta) (gainG delta) (gainB delta))))"
    using processImageBuffer_written[of "i + 1" h destination source delta] b(2)
    by (simp only: assigned_cases(2)[OF m(1)])
  show "i + 2 < length (h destination) \<Longrightarrow>
       processImageBuffer h source destination delta destination ! (i + 2) =
       word_of_nat (ToUint8Clamp (clamp (newB (rd (h source) (i + 2)) (gainR delta) (gainG delta) (gainB delta))))"
    using processImageBuffer_written[of "i + 2" h destination source delta] b(3)
    by (simp only: assigned_cases(3)[OF m(2)])
  show "i + 3 < length (h destination) \<Longrightarrow>
       processImageBuffer h source destination delta destination ! (i + 3) =
       word_of_nat (ToUint8Clamp (rd (h source) (i + 3)))"
    using processImageBuffer_written[of "i + 3" h destination source delta] b(4)
    by (simp only: assigned_cases(4)[OF m(3)])
qed

text \<open>
  Claim C2. \<^verbatim>\<open>calculateDelta\<close> returns, channel by channel, target minus initial; on finite
  inputs the result is the difference of the reals, of either sign, without clamping and
  without an error case.
\<close>

theorem calculateDelta_difference:
  "cmy_c (calculateDelta initial target) = cmy_c target - cmy_c initial
   \<and> cmy_m (calculateDelta initial target) = cmy_m target - cmy_m initial
   \<and> cmy_y (calculateDelta initial target) = cmy_y target - cmy_y initial
   \<and> calculateDelta \<lparr> cmy_c = Num ic, cmy_m = Num im, cmy_y = Num iy \<rparr>
                     \<lparr> cmy_c = Num tc, cmy_m = Num tm, cmy_y = Num ty \<rparr>
       = \<lparr> cmy_c = Num (tc - ic), cmy_m = Num (tm - im), cmy_y = Num (ty - iy) \<rparr>"
  by (simp add: calculateDelta_def)

lemma clamp_rd: "clamp (rd a k) = rd a k"
proof (cases "k < length a")
  case True
  have "unat (a ! k) < 256"
    using unsigned_less[of "a ! k"] by simp
  then have "unat (a ! k) \<le> 255" by simp
  then have "real (unat (a ! k)) \<le> real 255" by (rule of_nat_mono)
  then have u: "real (unat (a ! k)) \<le> 255" by (simp only: of_nat_numeral)
  have z: "0 \<le> real (unat (a ! k))" by (rule of_nat_0_le_iff)
  have "max 0 (min 255 (real (unat (a ! k)))) = real (unat (a ! k))"
    using u z by (simp only: min_absorb2 max_absorb2)
  with True show ?thesis by (simp only: rd_def if_True clamp_Num)
next
  case False
  then show ?thesis by (simp add: rd_def clamp_NaN)
qed

lemma zero_gain_mix:
  "newR x (Num 0 * STRENGTH) (Num 0 * STRENGTH) (Num 0 * STRENGTH) = x"
  "newG x (Num 0 * STRENGTH) (Num 0 * STRENGTH) (Num 0 * STRENGTH) = x"
  "newB x (Num 0 * STRENGTH) (Num 0 * STRENGTH) (Num 0 * STRENGTH) = x"
  by (cases x; simp add: newR_def newG_def newB_def STRENGTH_def XTALK_def)+

lemma stored_zero_gain:
  assumes "k < length a"
  shows "word_of_nat (ToUint8Clamp (assigned a (Num 0 * STRENGTH) (Num 0 * STRENGTH) (Num 0 * STRENGTH) k)) = a ! k"
proof -
  have "assigned a (Num 0 * STRENGTH) (Num 0 * STRENGTH) (Num 0 * STRENGTH) k = rd a k"
    unfolding assigned_def zero_gain_mix clamp_rd by simp
  also have "\<dots> = Num (real (unat (a ! k)))"
    using assms by (simp only: rd_def if_True)
  finally show ?thesis by (simp only: stored_sample)
qed

text \<open>
  Claim C3. With a destination of the length of the source, the all-zero delta leaves in
  the destination exactly the samples of the source, alpha included.
\<close>

theorem zero_delta_identity:
  assumes "length (h destination) = length (h source)"
  shows "processImageBuffer h source destination
           \<lparr> cmy_c = Num 0, cmy_m = Num 0, cmy_y = Num 0 \<rparr> destination = h source"
proof (rule nth_equalityI)
  show "length (processImageBuffer h source destination
           \<lparr> cmy_c = Num 0, cmy_m = Num 0, cmy_y = Num 0 \<rparr> destination) = length (h source)"
    using assms by (simp add: processImageBuffer_def length_pixel_loop)
next
  fix k
  assume "k < length (processImageBuffer h source destination
           \<lparr> cmy_c = Num 0, cmy_m = Num 0, cmy_y = Num 0 \<rparr> destination)"
  then have k: "k < length (h source)"
    using assms by (simp add: processImageBuffer_def length_pixel_loop)
  then have "k - k mod 4 < length (h source)" by linarith
  with k assms show "processImageBuffer h source destination
           \<lparr> cmy_c = Num 0, cmy_m = Num 0, cmy_y = Num 0 \<rparr> destination ! k = h source ! k"
    by (simp add: processImageBuffer_nth gainR_def gainG_def gainB_def stored_zero_gain)
qed

theorem zero_delta_identity_witness:
  "length (example_store 1) = length (example_store 0)
   \<and> processImageBuffer example_store 0 1
        \<lparr> cmy_c = Num 0, cmy_m = Num 0, cmy_y = Num 0 \<rparr> 1 = [128, 128, 128, 255]"
  using zero_delta_identity [of example_store 1 0]
  by (simp add: example_store_def grey_pixel_def)

text \<open>
  Claim C4. For every delta and every processed pixel offset \<open>i\<close>, the alpha sample of the
  destination equals the alpha sample of the source.
\<close>

theorem alpha_preserved:
  assumes "i mod 4 = 0" "i + 3 < length (h source)" "i + 3 < length (h destination)"
  shows "processImageBuffer h source destination delta destination ! (i + 3) = h source ! (i + 3)"
proof -
  have "processImageBuffer h source destination delta destination ! (i + 3) =
       word_of_nat (ToUint8Clamp (rd (h source) (i + 3)))"
    using assms by (intro processImageBuffer_pixel(4)) simp_all
  also have "\<dots> = h source ! (i + 3)"
    using assms(2) by (simp only: rd_def if_True stored_sample)
  finally show ?thesis .
qed

theorem alpha_preserved_witness:
  "(0::nat) mod 4 = 0 \<and> 0 + 3 < length (example_store 0) \<and> 0 + 3 < length (example_store 1)
   \<and> processImageBuffer example_store 0 1 magenta10 1 ! (0 + 3) = 255"
  using alpha_preserved [of 0 example_store 0 1 magenta10]
  by (simp add: example_store_def grey_pixel_def)

text \<open>
  Claim C5. When the destination is a different array, \<^verbatim>\<open>processImageBuffer\<close> leaves the
  source array as it was.
\<close>

theorem source_unchanged:
  assumes "source \<noteq> destination"
  shows "processImageBuffer h source destination delta source = h source"
  using assms by (simp add: processImageBuffer_def pixel_loop_frame)

theorem source_unchanged_witness:
  "(0::nat) \<noteq> 1 \<and> processImageBuffer example_store 0 1 magenta10 0 = [128, 128, 128, 255]"
  using source_unchanged [of 0 1 example_store magenta10]
  by (simp add: example_store_def grey_pixel_def)

text \<open>
  Claim C6. The pixel (128, 128, 128, 255) under the delta \<open>{c: 0, m: 10, y: 0}\<close> becomes
  (125, 146, 125, 255); the green gain is 18, the mixed green is 146, the mixed red and
  blue are 125.3.
\<close>

theorem concrete_scenario:
  "transform grey_pixel magenta10 = [125, 146, 125, 255]
   \<and> gainG magenta10 = Num 18 \<and> gainR magenta10 = Num 0 \<and> gainB magenta10 = Num 0
   \<and> newG (rd grey_pixel 1) (gainR magenta10) (gainG magenta10) (gainB magenta10) = Num 146
   \<and> newR (rd grey_pixel 0) (gainR magenta10) (gainG magenta10) (gainB magenta10) = Num 125.3
   \<and> newB (rd grey_pixel 2) (gainR magenta10) (gainG magenta10) (gainB magenta10) = Num 125.3"
  unfolding transform_grey
  by (simp add: grey_pixel_def magenta10_def rd_def newR_def newG_def newB_def
      gainR_def gainG_def gainB_def STRENGTH_def XTALK_def)

text \<open>
  Claim C9. \<^verbatim>\<open>formatValue\<close> returns a multiple of 0.1 in the half-open interval
  \<open>(x - 0.05, x + 0.05]\<close>: a nearest multiple, the upper one at a tie. It maps 12.34 to
  12.3 and -0.05 to 0.
\<close>

theorem formatValue_nearest_tenth:
  "(\<exists>n::int. formatValue (Num x) = Num (of_int n / 10)
       \<and> x - 1 / 20 < of_int n / 10 \<and> of_int n / 10 \<le> x + 1 / 20)
   \<and> formatValue (Num 12.34) = Num 12.3
   \<and> formatValue (Num (- 0.05)) = Num 0"
proof (intro conjI)
  have "of_int \<lfloor>x * 10 + 1 / 2\<rfloor> \<le> x * 10 + 1 / 2" "x * 10 + 1 / 2 < of_int \<lfloor>x * 10 + 1 / 2\<rfloor> + 1"
    by linarith+
  then have "x - 1 / 20 < of_int \<lfloor>x * 10 + 1 / 2\<rfloor> / 10"
    "of_int \<lfloor>x * 10 + 1 / 2\<rfloor> / 10 \<le> x + 1 / 20"
    by linarith+
  moreover have "formatValue (Num x) = Num (of_int \<lfloor>x * 10 + 1 / 2\<rfloor> / 10)"
    by (simp add: formatValue_def)
  ultimately show "\<exists>n::int. formatValue (Num x) = Num (of_int n / 10)
       \<and> x - 1 / 20 < of_int n / 10 \<and> of_int n / 10 \<le> x + 1 / 20"
    by blast
  show "formatValue (Num 12.34) = Num 12.3"
    by (simp add: formatValue_def)
  show "formatValue (Num (- 0.05)) = Num 0"
    by (simp add: formatValue_def)
qed

lemma nearest_sample_stored:
  "nearest_sample (clamp v) (word_of_nat (ToUint8Clamp (clamp v)))"
proof (cases v)
  case NaN
  then show ?thesis
    by (simp add: nearest_sample_def clamp_NaN ToUint8Clamp_def)
next
  case (Num x)
  define c where "c = max 0 (min 255 x)"
  have c: "0 \<le> c" "c \<le> 255" by (simp_all add: c_def)
  have cl: "clamp v = Num c" by (simp add: Num clamp_Num c_def)
  have "ToUint8Clamp (Num c) \<le> 255" by (rule ToUint8Clamp_le)
  moreover have "\<bar>real (ToUint8Clamp (Num c)) - c\<bar> \<le> 1 / 2"
    using c by (rule ToUint8Clamp_near)
  ultimately show ?thesis
    unfolding nearest_sample_def cl unat_stored using c by simp
qed

text \<open>
  Claim C10. Every colour sample written by a pass is an integer of \<open>[0, 255]\<close> within 1/2
  of the clamped value assigned to it (and 0 when that value is \<^verbatim>\<open>NaN\<close>): the store rounds
  the fractional clamped value to a nearest integer.
\<close>

theorem stored_samples_are_nearest_bytes:
  assumes "i mod 4 = 0" "i < length (h source)" "i + 2 < length (h destination)"
  shows "nearest_sample (clamp (newR (rd (h source) i) (gainR delta) (gainG delta) (gainB delta)))
           (processImageBuffer h source destination delta destination ! i)
       \<and> nearest_sample (clamp (newG (rd (h source) (i + 1)) (gainR delta) (gainG delta) (gainB delta)))
           (processImageBuffer h source destination delta destination ! (i + 1))
       \<and> nearest_sample (clamp (newB (rd (h source) (i + 2)) (gainR delta) (gainG delta) (gainB delta)))
           (processImageBuffer h source destination delta destination ! (i + 2))"
proof -
  have d: "i < length (h destination)" "i + 1 < length (h destination)"
    using assms(3) by simp_all
  show ?thesis
    unfolding processImageBuffer_pixel(1)[OF assms(1,2) d(1)]
      processImageBuffer_pixel(2)[OF assms(1,2) d(2)]
      processImageBuffer_pixel(3)[OF assms(1,2,3)]
    by (intro conjI nearest_sample_stored)
qed

theorem stored_samples_are_nearest_bytes_witness:
  "(0::nat) mod 4 = 0 \<and> 0 < length (example_store 0) \<and> 0 + 2 < length (example_store 1)
   \<and> nearest_sample (Num 125.3) (processImageBuffer example_store 0 1 magenta10 1 ! 0)
   \<and> nearest_sample (Num 146) (processImageBuffer example_store 0 1 magenta10 1 ! (0 + 1))
   \<and> nearest_sample (Num 125.3) (processImageBuffer example_store 0 1 magenta10 1 ! (0 + 2))"
  using stored_samples_are_nearest_bytes [of 0 example_store 0 1 magenta10]
  by (simp add: example_store_def grey_pixel_def magenta10_def rd_def clamp_def
      newR_def newG_def newB_def gainR_def gainG_def gainB_def STRENGTH_def XTALK_def)

section \<open>Properties of the binary64 reading\<close>

subsection \<open>Rounding\<close>

lemma rhe_near: "\<bar>of_int (rhe c) - c\<bar> \<le> 1 / 2"
  unfolding rhe_def Let_def by (auto; linarith)

lemma rhe_of_int [simp]: "rhe (of_int n) = n"
  by (simp add: rhe_def)

lemma rhe_mono: "c \<le> d \<Longrightarrow> rhe c \<le> rhe d"
proof (rule ccontr)
  assume cd: "c \<le> d" and "\<not> rhe c \<le> rhe d"
  then have lt: "rhe d + 1 \<le> rhe c" by simp
  have nc: "\<bar>of_int (rhe c) - c\<bar> \<le> 1 / 2" and nd: "\<bar>of_int (rhe d) - d\<bar> \<le> 1 / 2"
    by (rule rhe_near)+
  from lt have "real_of_int (rhe d) + 1 \<le> of_int (rhe c)" by linarith
  with nc nd cd have eq: "c = d" "of_int (rhe c) = c + 1 / 2" "of_int (rhe d) = d - 1 / 2"
    by linarith+
  with lt show False by simp
qed

lemma rhe_minus: "rhe (- c) = - rhe c"
proof -
  have "\<lfloor>- c\<rfloor> = - \<lceil>c\<rceil>" by (simp add: ceiling_def)
  show ?thesis
  proof (cases "c = of_int \<lfloor>c\<rfloor>")
    case True
    then obtain n where "c = of_int n" ..
    then show ?thesis by (simp flip: of_int_minus)
  next
    case False
    then have c: "of_int \<lfloor>c\<rfloor> < c" "c < of_int \<lfloor>c\<rfloor> + 1" by linarith+
    then have f: "\<lfloor>- c\<rfloor> = - \<lfloor>c\<rfloor> - 1" by linarith
    show ?thesis
      unfolding rhe_def Let_def f using c by auto
  qed
qed

lemma expo_bounds:
  assumes "x \<noteq> 0"
  shows "2 powi expo x \<le> \<bar>x\<bar>" "\<bar>x\<bar> < 2 powi (expo x + 1)"
proof -
  define a where "a = \<bar>x\<bar>"
  have a: "0 < a" using assms by (simp add: a_def)
  have "2 powi expo x \<le> a \<and> a < 2 powi (expo x + 1)"
  proof (cases "1 \<le> a")
    case True
    define n where "n = \<lfloor>a\<rfloor>"
    have n: "0 < n" "of_int n \<le> a" "a < of_int n + 1" using True by (simp_all add: n_def)
    have e: "expo x = bitlen n - 1" using True by (simp add: expo_def a_def n_def Let_def)
    have b1: "1 \<le> bitlen n" using n(1) by (simp add: bitlen_alt_def)
    from bitlen_bounds[OF n(1)] have bb: "2 ^ nat (bitlen n - 1) \<le> n" "n < 2 ^ nat (bitlen n)" by auto
    have p1: "(2::real) powi (bitlen n - 1) = 2 ^ nat (bitlen n - 1)"
      using b1 by (simp add: power_int_nonneg_exp)
    have p2: "(2::real) powi (bitlen n - 1 + 1) = 2 ^ nat (bitlen n)"
      using b1 by (simp add: power_int_nonneg_exp)
    have r1: "(2::real) ^ nat (bitlen n - 1) \<le> of_int n"
      using bb(1) by (metis of_int_le_iff of_int_numeral of_int_power)
    have "n + 1 \<le> 2 ^ nat (bitlen n)" using bb(2) by simp
    then have "real_of_int (n + 1) \<le> 2 ^ nat (bitlen n)"
      by (metis of_int_le_iff of_int_numeral of_int_power)
    then have r2: "real_of_int n + 1 \<le> 2 ^ nat (bitlen n)" by simp
    show ?thesis unfolding e p1 p2 using r1 r2 n(2,3) by linarith
  next
    case False
    define y where "y = 1 / a"
    have y: "1 < y" using False a by (simp add: y_def)
    define N where "N = \<lceil>y\<rceil> - 1"
    have N: "0 < N" "of_int N < y" "y \<le> of_int N + 1" using y by (simp_all add: N_def; linarith?)+
    have e: "expo x = - bitlen N" using False by (simp add: expo_def a_def N_def y_def Let_def)
    have b1: "1 \<le> bitlen N" using N(1) by (simp add: bitlen_alt_def)
    from bitlen_bounds[OF N(1)] have bb: "2 ^ nat (bitlen N - 1) \<le> N" "N < 2 ^ nat (bitlen N)" by auto
    have p1: "(2::real) powi (- bitlen N) = 1 / 2 ^ nat (bitlen N)"
      using b1 by (simp add: power_int_minus_divide power_int_nonneg_exp)
    have "- bitlen N + 1 = - (bitlen N - 1)" by simp
    then have p2: "(2::real) powi (- bitlen N + 1) = 1 / 2 ^ nat (bitlen N - 1)"
      using b1 by (simp only: power_int_minus_divide) (simp add: power_int_nonneg_exp)
    have r1: "(2::real) ^ nat (bitlen N - 1) \<le> of_int N"
      using bb(1) by (metis of_int_le_iff of_int_numeral of_int_power)
    then have lo: "(2::real) ^ nat (bitlen N - 1) < y" using N(2) by linarith
    have "N + 1 \<le> 2 ^ nat (bitlen N)" using bb(2) by simp
    then have "real_of_int (N + 1) \<le> 2 ^ nat (bitlen N)"
      by (metis of_int_le_iff of_int_numeral of_int_power)
    then have "real_of_int N + 1 \<le> 2 ^ nat (bitlen N)" by simp
    then have hi: "y \<le> 2 ^ nat (bitlen N)" using N(3) by linarith
    have ay: "a = 1 / y" using a by (simp add: y_def)
    have "1 / 2 ^ nat (bitlen N) \<le> a"
      unfolding ay using hi y by (simp add: field_simps)
    moreover have "a < 1 / 2 ^ nat (bitlen N - 1)"
      unfolding ay using lo y by (simp add: field_simps)
    ultimately show ?thesis unfolding e p1 p2 by blast
  qed
  then show "2 powi expo x \<le> \<bar>x\<bar>" "\<bar>x\<bar> < 2 powi (expo x + 1)"
    by (simp_all add: a_def)
qed

lemma expo_unique:
  assumes "2 powi k \<le> \<bar>x\<bar>" "\<bar>x\<bar> < 2 powi (k + 1)"
  shows "expo x = k"
proof -
  have "(0::real) < 2 powi k" by simp
  with assms(1) have "0 < \<bar>x\<bar>" by linarith
  then have "x \<noteq> 0" by simp
  note b = expo_bounds[OF this]
  have "\<not> k < expo x"
  proof
    assume "k < expo x"
    then have "(2::real) powi (k + 1) \<le> 2 powi expo x"
      by (intro power_int_increasing) simp_all
    with assms(2) b(1) show False by linarith
  qed
  moreover have "\<not> expo x < k"
  proof
    assume "expo x < k"
    then have "(2::real) powi (expo x + 1) \<le> 2 powi k"
      by (intro power_int_increasing) simp_all
    with assms(1) b(2) show False by linarith
  qed
  ultimately show ?thesis by simp
qed

lemma fl_eval:
  assumes "2 powi k \<le> \<bar>x\<bar>" "\<bar>x\<bar> < 2 powi (k + 1)" "- 1022 \<le> k"
  shows "fl x = of_int (rhe (x / 2 powi (k - 52))) * 2 powi (k - 52)"
  using assms(3) by (simp add: fl_def expo_unique[OF assms(1,2)] Let_def max_def)

lemma expo_minus [simp]: "expo (- x) = expo x"
  by (simp add: expo_def)

lemma fl_minus: "fl (- x) = - fl x"
  by (simp add: fl_def Let_def rhe_minus)

lemma rhe_zero [simp]: "rhe 0 = 0"
  by (simp add: rhe_def)

lemma fl_zero [simp]: "fl 0 = 0"
  by (simp add: fl_def Let_def)

lemma fl_nonneg: "0 \<le> x \<Longrightarrow> 0 \<le> fl x"
proof -
  assume x: "0 \<le> x"
  define u :: real where "u = 2 powi (max (expo x) (- 1022) - 52)"
  have u: "0 < u" by (simp add: u_def)
  have "rhe 0 \<le> rhe (x / u)" using x u by (intro rhe_mono) simp
  then have "0 \<le> rhe (x / u)" by simp
  then show ?thesis using u by (simp add: fl_def Let_def u_def)
qed

lemma fl_upper:
  assumes "0 < x"
  shows "fl x \<le> 2 powi (max (expo x) (- 1022) + 1)"
proof -
  define e where "e = max (expo x) (- 1022)"
  define u :: real where "u = 2 powi (e - 52)"
  have u: "0 < u" by (simp add: u_def)
  have "x < 2 powi (expo x + 1)" using expo_bounds(2)[of x] assms by simp
  also have "\<dots> \<le> 2 powi (e + 1)" by (intro power_int_increasing) (simp_all add: e_def)
  finally have "x < 2 powi (e + 1)" .
  moreover have s: "(2::real) powi (e + 1) = 2 ^ 53 * u"
  proof -
    have "e + 1 = 53 + (e - 52)" by simp
    then have "(2::real) powi (e + 1) = 2 powi (53 + (e - 52))" by (rule arg_cong)
    also have "\<dots> = 2 powi 53 * 2 powi (e - 52)" by (rule power_int_add) simp
    finally show ?thesis by (simp add: u_def)
  qed
  ultimately have "x / u \<le> 2 ^ 53" using u by (simp add: field_simps)
  then have "rhe (x / u) \<le> rhe (2 ^ 53)" by (rule rhe_mono)
  also have "rhe (2 ^ 53) = 2 ^ 53" using rhe_of_int[of "2 ^ 53"] by simp
  finally have "rhe (x / u) \<le> 2 ^ 53" .
  then have "real_of_int (rhe (x / u)) \<le> real_of_int (2 ^ 53)" by (simp only: of_int_le_iff)
  then have "real_of_int (rhe (x / u)) \<le> 2 ^ 53" by simp
  then have "of_int (rhe (x / u)) * u \<le> 2 ^ 53 * u" using u by simp
  then show ?thesis unfolding s[symmetric] by (simp add: fl_def Let_def u_def e_def)
qed

lemma fl_lower:
  assumes "0 < x" "- 1022 \<le> expo x"
  shows "2 powi expo x \<le> fl x"
proof -
  define e where "e = expo x"
  define u :: real where "u = 2 powi (e - 52)"
  have u: "0 < u" by (simp add: u_def)
  have m: "max (expo x) (- 1022) = e" using assms(2) by (simp add: e_def)
  have "2 powi e \<le> x" using expo_bounds(1)[of x] assms by (simp add: e_def)
  moreover have s: "(2::real) powi e = 2 ^ 52 * u"
  proof -
    have "e = 52 + (e - 52)" by simp
    then have "(2::real) powi e = 2 powi (52 + (e - 52))" by (rule arg_cong)
    also have "\<dots> = 2 powi 52 * 2 powi (e - 52)" by (rule power_int_add) simp
    finally show ?thesis by (simp add: u_def)
  qed
  ultimately have "2 ^ 52 \<le> x / u" using u by (simp add: field_simps)
  then have "rhe (2 ^ 52) \<le> rhe (x / u)" by (rule rhe_mono)
  moreover have "rhe (2 ^ 52) = 2 ^ 52" using rhe_of_int[of "2 ^ 52"] by simp
  ultimately have "2 ^ 52 \<le> rhe (x / u)" by simp
  then have "real_of_int (2 ^ 52) \<le> real_of_int (rhe (x / u))" by (simp only: of_int_le_iff)
  then have "2 ^ 52 \<le> real_of_int (rhe (x / u))" by simp
  then have "2 ^ 52 * u \<le> of_int (rhe (x / u)) * u" using u by simp
  then show ?thesis unfolding s[symmetric] by (simp add: fl_def Let_def m u_def) (simp add: e_def)
qed

lemma expo_mono:
  assumes "0 < x" "x \<le> y"
  shows "expo x \<le> expo y"
proof (rule ccontr)
  assume "\<not> expo x \<le> expo y"
  then have "(2::real) powi (expo y + 1) \<le> 2 powi expo x"
    by (intro power_int_increasing) simp_all
  moreover have "2 powi expo x \<le> x" "y < 2 powi (expo y + 1)"
    using expo_bounds[of x] expo_bounds[of y] assms by simp_all
  ultimately show False using assms(2) by linarith
qed

lemma fl_mono_pos:
  assumes "0 < x" "x \<le> y"
  shows "fl x \<le> fl y"
proof -
  define ex where "ex = max (expo x) (- 1022)"
  define ey where "ey = max (expo y) (- 1022)"
  have le: "ex \<le> ey" using expo_mono[OF assms] by (simp add: ex_def ey_def)
  show ?thesis
  proof (cases "ex = ey")
    case True
    define u :: real where "u = 2 powi (ex - 52)"
    have u: "0 < u" by (simp add: u_def)
    have "x / u \<le> y / u" using assms(2) u by (simp add: field_simps)
    then have "rhe (x / u) \<le> rhe (y / u)" by (rule rhe_mono)
    then have "real_of_int (rhe (x / u)) * u \<le> of_int (rhe (y / u)) * u" using u by simp
    then show ?thesis
      using True by (simp add: fl_def Let_def u_def ex_def ey_def)
  next
    case False
    with le have lt: "ex + 1 \<le> ey" by simp
    then have ey: "ey = expo y" "- 1022 \<le> expo y" by (simp_all add: ex_def ey_def)
    have "fl x \<le> 2 powi (ex + 1)" using fl_upper[OF assms(1)] by (simp add: ex_def)
    also have "\<dots> \<le> 2 powi ey" using lt by (intro power_int_increasing) simp_all
    also have "\<dots> \<le> fl y" unfolding ey(1) using assms ey(2) by (intro fl_lower) simp_all
    finally show ?thesis .
  qed
qed

lemma fl_mono:
  assumes "x \<le> y"
  shows "fl x \<le> fl y"
proof -
  consider "0 < x" | "x \<le> 0" "0 \<le> y" | "y < 0" by linarith
  then show ?thesis
  proof cases
    case 1
    then show ?thesis using assms by (rule fl_mono_pos)
  next
    case 2
    have "0 \<le> fl y" using 2(2) by (rule fl_nonneg)
    moreover have "0 \<le> fl (- x)" using 2(1) by (intro fl_nonneg) simp
    ultimately show ?thesis by (simp add: fl_minus)
  next
    case 3
    then have "fl (- y) \<le> fl (- x)" using assms by (intro fl_mono_pos) simp_all
    then show ?thesis by (simp add: fl_minus)
  qed
qed

lemma fl_exact:
  assumes "\<bar>n\<bar> < 2 ^ 53" "- 1074 \<le> q"
  shows "fl (of_int n * 2 powi q) = of_int n * 2 powi q"
proof (cases "n = 0")
  case True
  then show ?thesis by simp
next
  case False
  define x :: real where "x = of_int n * 2 powi q"
  have x0: "x \<noteq> 0" using False by (simp add: x_def)
  define e where "e = max (expo x) (- 1022)"
  have ax: "\<bar>x\<bar> = of_int \<bar>n\<bar> * 2 powi q" by (simp add: x_def abs_mult)
  have "real_of_int \<bar>n\<bar> < 2 ^ 53" using assms(1) by (metis of_int_less_iff of_int_numeral of_int_power)
  then have "\<bar>x\<bar> < 2 ^ 53 * 2 powi q" unfolding ax by simp
  also have "\<dots> = 2 powi (53 + q)"
    using power_int_add[of "2::real" 53 q] by simp
  finally have "2 powi expo x < (2::real) powi (53 + q)"
    using expo_bounds(1)[OF x0] by linarith
  then have "expo x < 53 + q"
    by (metis linorder_not_less power_int_increasing one_le_numeral)
  then have d: "0 \<le> q - (e - 52)" using assms(2) by (simp add: e_def)
  define d where "d = nat (q - (e - 52))"
  have "(2::real) powi q = 2 powi (int d + (e - 52))" using d by (simp add: d_def)
  also have "\<dots> = 2 ^ d * 2 powi (e - 52)"
    using power_int_add[of "2::real" "int d" "e - 52"] by simp
  finally have q: "(2::real) powi q = 2 ^ d * 2 powi (e - 52)" .
  have "x / 2 powi (e - 52) = of_int (n * 2 ^ d)"
    by (simp add: x_def q)
  then have "rhe (x / 2 powi (e - 52)) = n * 2 ^ d"
    by (simp only: rhe_of_int)
  then have "fl x = of_int (n * 2 ^ d) * 2 powi (e - 52)"
    by (simp add: fl_def Let_def e_def)
  also have "\<dots> = x" by (simp add: x_def q)
  finally show ?thesis by (simp add: x_def)
qed

lemma fl_pow2: "- 1074 \<le> q \<Longrightarrow> fl (2 powi q) = 2 powi q"
  using fl_exact[of 1 q] by simp

lemma fl_abs_le:
  assumes "\<bar>x\<bar> \<le> 2 powi q" "- 1074 \<le> q"
  shows "\<bar>fl x\<bar> \<le> 2 powi q"
proof -
  have "fl x \<le> fl (2 powi q)" using assms(1) by (intro fl_mono) simp
  moreover have "fl (- (2 powi q)) \<le> fl x" using assms(1) by (intro fl_mono) simp
  ultimately show ?thesis by (simp add: fl_pow2[OF assms(2)] fl_minus)
qed

lemma round64_Fin:
  assumes "\<bar>x\<bar> \<le> 2 powi q" "- 1074 \<le> q" "q \<le> 1023"
  shows "round64 x = Fin (fl x)"
proof -
  have "\<bar>fl x\<bar> \<le> 2 powi q" using assms(1,2) by (rule fl_abs_le)
  also have "\<dots> \<le> 2 powi 1023" using assms(3) by (intro power_int_increasing) simp_all
  also have "\<dots> < (2::real) ^ 1024" by simp
  finally show ?thesis by (simp add: round64_def Let_def)
qed

lemma round64_zero [simp]: "round64 0 = Fin 0"
  by (simp add: round64_def)

lemma round64_eval:
  assumes "2 powi k \<le> \<bar>x\<bar>" "\<bar>x\<bar> < 2 powi (k + 1)" "- 1022 \<le> k" "k \<le> 1022"
  shows "round64 x = Fin (of_int (rhe (x / 2 powi (k - 52))) * 2 powi (k - 52))"
proof -
  have "round64 x = Fin (fl x)"
    using assms by (intro round64_Fin[where q = "k + 1"]) simp_all
  then show ?thesis by (simp only: fl_eval[OF assms(1,2,3)])
qed

lemma round64_exact:
  assumes "\<bar>n\<bar> < 2 ^ 53" "- 1074 \<le> q" "q \<le> 970"
  shows "round64 (of_int n * 2 powi q) = Fin (of_int n * 2 powi q)"
proof -
  have "real_of_int \<bar>n\<bar> \<le> 2 ^ 53"
    using assms(1) by (metis less_imp_le of_int_le_iff of_int_numeral of_int_power)
  then have "\<bar>of_int n * 2 powi q\<bar> \<le> 2 ^ 53 * (2::real) powi q"
    by (simp add: abs_mult)
  also have "\<dots> = 2 powi (53 + q)" using power_int_add[of "2::real" 53 q] by simp
  finally have "round64 (of_int n * 2 powi q) = Fin (fl (of_int n * 2 powi q))"
    using assms(2,3) by (intro round64_Fin[where q = "53 + q"]) simp_all
  then show ?thesis by (simp only: fl_exact[OF assms(1,2)])
qed

lemma round64_ge:
  assumes "fl c = c" "- (2 ^ 1024) < c" "c \<le> x"
  shows "Fin c \<le> round64 x"
proof -
  have "c \<le> fl x" using fl_mono[OF assms(3)] assms(1) by simp
  with assms(2) show ?thesis by (auto simp: round64_def Let_def)
qed

lemma round64_le:
  assumes "fl c = c" "c < 2 ^ 1024" "x \<le> c"
  shows "round64 x \<le> Fin c"
proof -
  have "fl x \<le> c" using fl_mono[OF assms(3)] assms(1) by simp
  with assms(2) show ?thesis by (auto simp: round64_def Let_def)
qed

lemmas eval64_defs = assigned64_def rd64_def clamp64_def newR64_def newG64_def newB64_def
  gainR64_def gainG64_def gainB64_def STRENGTH64_def XTALK64_def ToUint8Clamp64_def
  ToUint8Clamp_def Let_def rhe_def

lemmas round64_binades =
  round64_eval[where k = "- 3"] round64_eval[where k = "- 2"] round64_eval[where k = "- 1"]
  round64_eval[where k = 0] round64_eval[where k = 1] round64_eval[where k = 2]
  round64_eval[where k = 3] round64_eval[where k = 4] round64_eval[where k = 5]
  round64_eval[where k = 6] round64_eval[where k = 7] round64_eval[where k = 8]

lemma STRENGTH64_eq: "STRENGTH64 = Fin (8106479329266893 / 2 ^ 52)"
  by (simp add: STRENGTH64_def round64_eval[where k = 0] rhe_def)

lemma XTALK64_eq: "XTALK64 = Fin (5404319552844595 / 2 ^ 55)"
  by (simp add: XTALK64_def round64_eval[where k = "- 3"] rhe_def)

subsection \<open>One iteration and the loop over binary64\<close>

lemma length_wr64 [simp]: "length (wr64 a k v) = length a"
  by (simp add: wr64_def)

lemma length_store_wr64 [simp]: "length (store_wr64 h p k v q) = length (h q)"
  by (simp add: store_wr64_def)

lemma length_pixel_step64 [simp]:
  "length (pixel_step64 h source destination gR gG gB i q) = length (h q)"
  by (simp add: pixel_step64_def Let_def)

lemma rd_wr_other64: "j \<noteq> k \<Longrightarrow> rd64 (wr64 a k v) j = rd64 a j"
  by (simp add: rd64_def wr64_def)

lemma nth_wr64: "j < length a \<Longrightarrow> wr64 a k v ! j = (if j = k then word_of_nat (ToUint8Clamp64 v) else a ! j)"
  by (simp add: wr64_def)

lemma pixel_step64_eq:
  assumes "i mod 4 = 0"
  shows "pixel_step64 h source destination gR gG gB i =
     h(destination :=
         wr64 (wr64 (wr64 (wr64 (h destination) i (assigned64 (h source) gR gG gB i))
                    (i + 1) (assigned64 (h source) gR gG gB (i + 1)))
                (i + 2) (assigned64 (h source) gR gG gB (i + 2)))
            (i + 3) (assigned64 (h source) gR gG gB (i + 3)))"
proof -
  have m: "(i + 1) mod 4 = 1" "(i + 2) mod 4 = 2" "(i + 3) mod 4 = 3"
    using assms by presburger+
  have a: "assigned64 (h source) gR gG gB i = clamp64 (newR64 (rd64 (h source) i) gR gG gB)"
    "assigned64 (h source) gR gG gB (i + 1) = clamp64 (newG64 (rd64 (h source) (i + 1)) gR gG gB)"
    "assigned64 (h source) gR gG gB (i + 2) = clamp64 (newB64 (rd64 (h source) (i + 2)) gR gG gB)"
    "assigned64 (h source) gR gG gB (i + 3) = rd64 (h source) (i + 3)"
    using assms m by (simp_all add: assigned64_def)
  show ?thesis
  proof (cases "source = destination")
    case True
    then show ?thesis
      unfolding a by (simp add: pixel_step64_def Let_def store_wr64_def rd_wr_other64)
  next
    case False
    then show ?thesis
      unfolding a by (simp add: pixel_step64_def Let_def store_wr64_def)
  qed
qed

lemma pixel_step64_frame:
  "q \<noteq> destination \<Longrightarrow> pixel_step64 h source destination gR gG gB i q = h q"
  by (simp add: pixel_step64_def Let_def store_wr64_def)

lemma pixel_step64_nth:
  assumes "i mod 4 = 0" "k < length (h destination)"
  shows "pixel_step64 h source destination gR gG gB i destination ! k =
     (if i \<le> k \<and> k < i + 4
      then word_of_nat (ToUint8Clamp64 (assigned64 (h source) gR gG gB k))
      else h destination ! k)"
proof -
  consider "k < i" | "k = i" | "k = i + 1" | "k = i + 2" | "k = i + 3" | "i + 4 \<le> k"
    by linarith
  then show ?thesis
    using assms(2) by cases (simp_all add: pixel_step64_eq[OF assms(1)] nth_wr64)
qed

lemma pixel_step64_rd:
  assumes "i mod 4 = 0" "i + 4 \<le> k"
  shows "rd64 (pixel_step64 h source destination gR gG gB i q) k = rd64 (h q) k"
proof (cases "q = destination")
  case True
  show ?thesis
  proof (cases "k < length (h destination)")
    case True
    with assms \<open>q = destination\<close> show ?thesis
      by (simp add: rd64_def pixel_step64_nth)
  next
    case False
    with \<open>q = destination\<close> show ?thesis by (simp add: rd64_def)
  qed
next
  case False
  then show ?thesis by (simp add: pixel_step64_frame)
qed

lemma assigned64_pixel_step64:
  assumes "i mod 4 = 0" "i + 4 \<le> k"
  shows "assigned64 (pixel_step64 h source destination gR gG gB i q) gR' gG' gB' k =
         assigned64 (h q) gR' gG' gB' k"
  by (simp add: assigned64_def pixel_step64_rd[OF assms])

lemma pixel_loop64_frame:
  "q \<noteq> destination \<Longrightarrow> pixel_loop64 h source destination gR gG gB i q = h q"
proof (induction h source destination gR gG gB i rule: pixel_loop64.induct)
  case (1 h source destination gR gG gB i)
  show ?case
  proof (cases "i < length (h source)")
    case True
    with 1 show ?thesis
      by (simp add: pixel_step64_frame pixel_loop64.simps[of h])
  next
    case False
    then show ?thesis by (simp add: pixel_loop64.simps[of h])
  qed
qed

lemma length_pixel_loop64:
  "length (pixel_loop64 h source destination gR gG gB i q) = length (h q)"
proof (induction h source destination gR gG gB i rule: pixel_loop64.induct)
  case (1 h source destination gR gG gB i)
  show ?case
  proof (cases "i < length (h source)")
    case True
    with 1 show ?thesis by (simp add: pixel_loop64.simps[of h])
  next
    case False
    then show ?thesis by (simp add: pixel_loop64.simps[of h])
  qed
qed

lemma pixel_loop64_nth:
  assumes "i mod 4 = 0" "k < length (h destination)"
  shows "pixel_loop64 h source destination gR gG gB i destination ! k =
     (if i \<le> k \<and> k - k mod 4 < length (h source)
      then word_of_nat (ToUint8Clamp64 (assigned64 (h source) gR gG gB k))
      else h destination ! k)"
  using assms
proof (induction h source destination gR gG gB i rule: pixel_loop64.induct)
  case (1 h source destination gR gG gB i)
  show ?case
  proof (cases "i < length (h source)")
    case True
    let ?h = "pixel_step64 h source destination gR gG gB i"
    have i4: "(i + 4) mod 4 = 0" using "1.prems"(1) by presburger
    have IH: "pixel_loop64 ?h source destination gR gG gB (i + 4) destination ! k =
      (if i + 4 \<le> k \<and> k - k mod 4 < length (h source)
       then word_of_nat (ToUint8Clamp64 (assigned64 (?h source) gR gG gB k))
       else ?h destination ! k)"
      using "1.IH"[OF True i4] "1.prems"(2) by simp
    have unfold: "pixel_loop64 h source destination gR gG gB i =
        pixel_loop64 ?h source destination gR gG gB (i + 4)"
      using True by (simp add: pixel_loop64.simps[of h])
    show ?thesis
    proof (cases "i + 4 \<le> k")
      case True
      then show ?thesis
        unfolding unfold IH
        by (simp add: assigned64_pixel_step64[OF "1.prems"(1)] pixel_step64_nth[of i k h destination, OF "1.prems"])
    next
      case False
      have base: "i \<le> k \<Longrightarrow> k - k mod 4 = i"
        using False "1.prems"(1) by presburger
      show ?thesis
        unfolding unfold IH using False True base
        by (simp add: pixel_step64_nth[of i k h destination, OF "1.prems"])
    qed
  next
    case False
    have "k - k mod 4 < length (h source) \<Longrightarrow> i \<le> k \<Longrightarrow> False"
      using False "1.prems"(1) by presburger
    with False show ?thesis by (auto simp: pixel_loop64.simps[of h])
  qed
qed

lemma processImageBuffer64_nth:
  assumes "k < length (h destination)"
  shows "processImageBuffer64 h source destination delta destination ! k =
     (if k - k mod 4 < length (h source)
      then word_of_nat (ToUint8Clamp64 (assigned64 (h source) (gainR64 delta) (gainG64 delta) (gainB64 delta) k))
      else h destination ! k)"
  unfolding processImageBuffer64_def
  using pixel_loop64_nth[of 0 k h destination source "gainR64 delta" "gainG64 delta" "gainB64 delta"] assms
  by simp

lemma transform64_eq_map:
  "transform64 original delta =
     map (\<lambda>k. word_of_nat (ToUint8Clamp64 (assigned64 original (gainR64 delta) (gainG64 delta) (gainB64 delta) k)))
       [0..<length original]"
proof (rule nth_equalityI)
  show "length (transform64 original delta) = length (map (\<lambda>k. word_of_nat (ToUint8Clamp64 (assigned64 original (gainR64 delta) (gainG64 delta) (gainB64 delta) k)) :: sample)
       [0..<length original])"
    by (simp add: transform64_def processImageBuffer64_def length_pixel_loop64 Let_def)
next
  fix k assume "k < length (transform64 original delta)"
  then have k: "k < length original"
    by (simp add: transform64_def processImageBuffer64_def length_pixel_loop64 Let_def)
  then have "k - k mod 4 < length original" by linarith
  with k show "transform64 original delta ! k = map (\<lambda>k. word_of_nat (ToUint8Clamp64 (assigned64 original (gainR64 delta) (gainG64 delta) (gainB64 delta) k)))
       [0..<length original] ! k"
    by (simp add: transform64_def processImageBuffer64_nth Let_def)
qed

lemma assigned64_cases:
  "k mod 4 = 0 \<Longrightarrow> assigned64 a gR gG gB k = clamp64 (newR64 (rd64 a k) gR gG gB)"
  "k mod 4 = 1 \<Longrightarrow> assigned64 a gR gG gB k = clamp64 (newG64 (rd64 a k) gR gG gB)"
  "k mod 4 = 2 \<Longrightarrow> assigned64 a gR gG gB k = clamp64 (newB64 (rd64 a k) gR gG gB)"
  "k mod 4 = 3 \<Longrightarrow> assigned64 a gR gG gB k = rd64 a k"
  by (simp_all add: assigned64_def)

lemma processImageBuffer64_written:
  assumes "k < length (h destination)" "k - k mod 4 < length (h source)"
  shows "processImageBuffer64 h source destination delta destination ! k =
     word_of_nat (ToUint8Clamp64 (assigned64 (h source) (gainR64 delta) (gainG64 delta) (gainB64 delta) k))"
  using processImageBuffer64_nth[of k h destination source delta] assms by simp

lemma processImageBuffer64_pixel:
  assumes "i mod 4 = 0" "i < length (h source)"
  shows
    "i < length (h destination) \<Longrightarrow>
       processImageBuffer64 h source destination delta destination ! i =
       word_of_nat (ToUint8Clamp64 (clamp64 (newR64 (rd64 (h source) i) (gainR64 delta) (gainG64 delta) (gainB64 delta))))"
    "i + 1 < length (h destination) \<Longrightarrow>
       processImageBuffer64 h source destination delta destination ! (i + 1) =
       word_of_nat (ToUint8Clamp64 (clamp64 (newG64 (rd64 (h source) (i + 1)) (gainR64 delta) (gainG64 delta) (gainB64 delta))))"
    "i + 2 < length (h destination) \<Longrightarrow>
       processImageBuffer64 h source destination delta destination ! (i + 2) =
       word_of_nat (ToUint8Clamp64 (clamp64 (newB64 (rd64 (h source) (i + 2)) (gainR64 delta) (gainG64 delta) (gainB64 delta))))"
    "i + 3 < length (h destination) \<Longrightarrow>
       processImageBuffer64 h source destination delta destination ! (i + 3) =
       word_of_nat (ToUint8Clamp64 (rd64 (h source) (i + 3)))"
proof -
  have m: "(i + 1) mod 4 = 1" "(i + 2) mod 4 = 2" "(i + 3) mod 4 = 3"
    using assms(1) by presburger+
  have b: "i - i mod 4 < length (h source)" "i + 1 - (i + 1) mod 4 < length (h source)"
    "i + 2 - (i + 2) mod 4 < length (h source)" "i + 3 - (i + 3) mod 4 < length (h source)"
    using assms m by simp_all
  show "i < length (h destination) \<Longrightarrow>
       processImageBuffer64 h source destination delta destination ! i =
       word_of_nat (ToUint8Clamp64 (clamp64 (newR64 (rd64 (h source) i) (gainR64 delta) (gainG64 delta) (gainB64 delta))))"
    using processImageBuffer64_written[of "i" h destination source delta] b(1)
    by (simp only: assigned64_cases(1)[OF assms(1)])
  show "i + 1 < length (h destination) \<Longrightarrow>
       processImageBuffer64 h source destination delta destination ! (i + 1) =
       word_of_nat (ToUint8Clamp64 (clamp64 (newG64 (rd64 (h source) (i + 1)) (gainR64 delta) (gainG64 delta) (gainB64 delta))))"
    using processImageBuffer64_written[of "i + 1" h destination source delta] b(2)
    by (simp only: assigned64_cases(2)[OF m(1)])
  show "i + 2 < length (h destination) \<Longrightarrow>
       processImageBuffer64 h source destination delta destination ! (i + 2) =
       word_of_nat (ToUint8Clamp64 (clamp64 (newB64 (rd64 (h source) (i + 2)) (gainR64 delta) (gainG64 delta) (gainB64 delta))))"
    using processImageBuffer64_written[of "i + 2" h destination source delta] b(3)
    by (simp only: assigned64_cases(3)[OF m(2)])
  show "i + 3 < length (h destination) \<Longrightarrow>
       processImageBuffer64 h source destination delta destination ! (i + 3) =
       word_of_nat (ToUint8Clamp64 (rd64 (h source) (i + 3)))"
    using processImageBuffer64_written[of "i + 3" h destination source delta] b(4)
    by (simp only: assigned64_cases(4)[OF m(3)])
qed

subsection \<open>Evaluation at concrete pixels\<close>

text \<open>
  The grey pixel of the concrete scenario; a pixel whose red value falls just above a tie
  (\<open>30.500000000000004\<close>, stored as 31), where the exact reading has the tie itself
  (\<open>30.5\<close>, stored as 30); and three more values next to a tie.
\<close>

lemma transform64_grey: "transform64 grey_pixel magenta10_64 = [125, 146, 125, 255]"
  by (simp add: transform64_eq_map grey_pixel_def magenta10_64_def upt_4 eval64_defs round64_binades)

lemma transform64_near_tie:
  "transform64 [26, 26, 26, 255] \<lparr> c64 = Fin 4, m64 = Fin 10, y64 = Fin 0 \<rparr> = [31, 43, 22, 255]"
  by (simp add: transform64_eq_map upt_4 eval64_defs round64_binades)

lemma transform64_dark:
  "transform64 [5, 5, 5, 255] \<lparr> c64 = Fin (- 1), m64 = Fin 10, y64 = Fin 0 \<rparr> ! 0 = 1"
  by (simp add: transform64_eq_map upt_4 eval64_defs round64_binades)

lemma transform64_mid:
  "transform64 [130, 130, 130, 255] \<lparr> c64 = Fin (- 1), m64 = Fin 10, y64 = Fin 0 \<rparr> ! 0 = 125"
  by (simp add: transform64_eq_map upt_4 eval64_defs round64_binades)

lemma transform64_blue:
  "transform64 [12, 12, 12, 255] \<lparr> c64 = Fin (- 2), m64 = Fin 2, y64 = Fin (- 2.5) \<rparr> ! 2 = 7"
  by (simp add: transform64_eq_map upt_4 eval64_defs round64_binades)

lemma transform_exact_near_tie:
  "transform [26, 26, 26, 255] \<lparr> cmy_c = Num 4, cmy_m = Num 10, cmy_y = Num 0 \<rparr> = [30, 43, 22, 255]"
  by (simp add: transform_eq_map upt_4 eval_defs)

subsection \<open>Claims settled on the binary64 reading\<close>

text \<open>
  Claim C1. For every processed pixel offset \<open>i\<close> the three colour samples of the
  destination are the source samples mixed with the gains \<open>delta.c * 1.8\<close>,
  \<open>delta.m * 1.8\<close>, \<open>delta.y * 1.8\<close> and the crosstalk 0.15, in the order of the source and
  in binary64 arithmetic, clamped to \<open>[0, 255]\<close> after the whole combination and stored as
  8-bit samples by the typed array's conversion, at the offset of the source sample.
\<close>

theorem processImageBuffer64_colour_samples:
  assumes "i mod 4 = 0" "i < length (h source)" "i + 2 < length (h destination)"
  shows "unat (processImageBuffer64 h source destination delta destination ! i) =
           ToUint8Clamp64 (clamp64 (rd64 (h source) i + c64 delta * round64 1.8
              - (m64 delta * round64 1.8 * round64 0.15) - (y64 delta * round64 1.8 * round64 0.15)))
       \<and> unat (processImageBuffer64 h source destination delta destination ! (i + 1)) =
           ToUint8Clamp64 (clamp64 (rd64 (h source) (i + 1) + m64 delta * round64 1.8
              - (c64 delta * round64 1.8 * round64 0.15) - (y64 delta * round64 1.8 * round64 0.15)))
       \<and> unat (processImageBuffer64 h source destination delta destination ! (i + 2)) =
           ToUint8Clamp64 (clamp64 (rd64 (h source) (i + 2) + y64 delta * round64 1.8
              - (c64 delta * round64 1.8 * round64 0.15) - (m64 delta * round64 1.8 * round64 0.15)))"
proof -
  have d: "i < length (h destination)" "i + 1 < length (h destination)"
    using assms(3) by simp_all
  have st: "unat (word_of_nat (ToUint8Clamp64 v) :: sample) = ToUint8Clamp64 v" for v
  proof -
    have "ToUint8Clamp64 v \<le> 255"
      by (cases v) (simp_all add: ToUint8Clamp64_def ToUint8Clamp_le)
    then show ?thesis by (simp add: unat_of_nat take_bit_nat_eq_self)
  qed
  show ?thesis
    unfolding processImageBuffer64_pixel(1)[OF assms(1,2) d(1)]
      processImageBuffer64_pixel(2)[OF assms(1,2) d(2)]
      processImageBuffer64_pixel(3)[OF assms(1,2,3)]
      st newR64_def newG64_def newB64_def gainR64_def gainG64_def gainB64_def
      STRENGTH64_def XTALK64_def
    by (rule conjI refl)+
qed

theorem processImageBuffer64_colour_samples_witness:
  "(0::nat) mod 4 = 0 \<and> 0 < length (example_store 0) \<and> 0 + 2 < length (example_store 1)
   \<and> unat (processImageBuffer64 example_store 0 1 magenta10_64 1 ! 0) = 125
   \<and> unat (processImageBuffer64 example_store 0 1 magenta10_64 1 ! (0 + 1)) = 146
   \<and> unat (processImageBuffer64 example_store 0 1 magenta10_64 1 ! (0 + 2)) = 125"
  using processImageBuffer64_colour_samples [of 0 example_store 0 1 magenta10_64]
  by (simp add: example_store_def grey_pixel_def magenta10_64_def rd64_def clamp64_def
      ToUint8Clamp64_def ToUint8Clamp_def Let_def rhe_def round64_binades)

lemma fl_dyadic:
  assumes "\<bar>n\<bar> < 2 ^ 53" "j \<le> 1074"
  shows "fl (of_int n / 2 ^ j) = of_int n / 2 ^ j"
proof -
  have "(2::real) powi (- int j) = 1 / 2 ^ j"
    by (simp add: power_int_minus_divide)
  then have "of_int n / 2 ^ j = of_int n * (2::real) powi (- int j)" by simp
  moreover have "fl (of_int n * 2 powi (- int j)) = of_int n * 2 powi (- int j)"
    using assms by (intro fl_exact) simp_all
  ultimately show ?thesis by simp
qed

lemma fl_sample_plus:
  fixes w :: sample
  assumes "\<bar>z\<bar> \<le> 1" "j \<le> 43"
  shows "fl (real (unat w) + of_int z / 2 ^ j) = real (unat w) + of_int z / 2 ^ j"
proof -
  have w: "int (unat w) < 256" using unsigned_less[of w, where 'a = int] by simp
  have w0: "0 \<le> int (unat w)" by simp
  have "(2::int) ^ j \<le> 2 ^ 43" using assms(2) by (intro power_increasing) simp_all
  then have j: "(2::int) ^ j \<le> 8796093022208" "0 < (2::int) ^ j" by simp_all
  have n0: "0 \<le> int (unat w) * 2 ^ j" using w0 j(2) by simp
  have "int (unat w) \<le> 255" using w by simp
  then have n1: "int (unat w) * 2 ^ j \<le> 255 * 2 ^ j" using j(2) by (intro mult_right_mono) simp_all
  have "\<bar>int (unat w) * 2 ^ j + z\<bar> \<le> int (unat w) * 2 ^ j + 1"
    using assms(1) n0 by linarith
  also have "\<dots> \<le> 255 * 2 ^ j + 1" using n1 by linarith
  also have "\<dots> \<le> 255 * 8796093022208 + 1" using j(1) by simp
  also have "\<dots> < 2 ^ 53" by simp
  finally have b: "\<bar>int (unat w) * 2 ^ j + z\<bar> < 2 ^ 53" .
  have e: "real (unat w) + of_int z / 2 ^ j = of_int (int (unat w) * 2 ^ j + z) / 2 ^ j"
    by (simp add: field_simps)
  show ?thesis unfolding e using b assms(2) by (intro fl_dyadic) simp_all
qed

lemma fl_sample: "fl (real (unat (w :: sample))) = real (unat w)"
  using fl_sample_plus[of 0 0 w] by simp

lemma round64_sample: "round64 (real (unat (w :: sample))) = Fin (real (unat w))"
proof -
  have "unat w < 256" using unsigned_less[of w] by simp
  then have "real (unat w) \<le> 2 powi 8" by (simp del: of_nat_unat)
  then have "\<bar>real (unat w)\<bar> \<le> 2 powi 8" by (simp del: of_nat_unat)
  then have "round64 (real (unat w)) = Fin (fl (real (unat w)))"
    by (rule round64_Fin) simp_all
  then show ?thesis by (simp only: fl_sample)
qed

lemma double_ge_cases:
  assumes "Fin c \<le> v"
  obtains "v = PosInf" | t where "v = Fin t" "c \<le> t"
  using assms by (cases v) simp_all

lemma double_le_cases:
  assumes "v \<le> Fin c"
  obtains "v = NegInf" | t where "v = Fin t" "t \<le> c"
  using assms by (cases v) simp_all

lemma times_ge:
  assumes "Fin c \<le> v" "0 < c" "0 < k" "fl c' = c'" "c' \<le> c * k" "- (2 ^ 1024) < c'"
  shows "Fin c' \<le> v * Fin k"
  using assms(1)
proof (cases rule: double_ge_cases)
  case 1
  then show ?thesis using assms(3) by simp
next
  case (2 t)
  have "c * k \<le> t * k" using 2(2) assms(3) by simp
  with assms(5) have "c' \<le> t * k" by linarith
  then show ?thesis unfolding 2(1) using assms(4,6) by (simp add: round64_ge)
qed

lemma plus_ge:
  assumes "Fin c \<le> v" "fl c' = c'" "c' \<le> a + c" "- (2 ^ 1024) < c'"
  shows "Fin c' \<le> Fin a + v"
  using assms(1)
proof (cases rule: double_ge_cases)
  case 1
  then show ?thesis by simp
next
  case (2 t)
  with assms(3) have "c' \<le> a + t" by linarith
  then show ?thesis unfolding 2(1) using assms(2,4) by (simp add: round64_ge)
qed

lemma minus_zero_ge:
  assumes "Fin c \<le> w" "fl c = c" "- (2 ^ 1024) < c"
  shows "Fin c \<le> w - Fin 0"
  using assms(1)
proof (cases rule: double_ge_cases)
  case 1
  then show ?thesis by simp
next
  case (2 t)
  then show ?thesis using assms(2,3) by (simp add: round64_ge)
qed

lemma minus_le:
  assumes "Fin c \<le> v" "fl c' = c'" "a - c \<le> c'" "c' < 2 ^ 1024"
  shows "Fin a - v \<le> Fin c'"
  using assms(1)
proof (cases rule: double_ge_cases)
  case 1
  then show ?thesis by simp
next
  case (2 t)
  with assms(3) have "a - t \<le> c'" by linarith
  then show ?thesis unfolding 2(1) using assms(2,4) by (simp add: round64_le)
qed

lemma minus_zero_le:
  assumes "w \<le> Fin c" "fl c = c" "c < 2 ^ 1024"
  shows "w - Fin 0 \<le> Fin c"
  using assms(1)
proof (cases rule: double_le_cases)
  case 1
  then show ?thesis by simp
next
  case (2 t)
  then show ?thesis using assms(2,3) by (simp add: round64_le)
qed

lemma less_le_double: "Fin a < Fin b \<Longrightarrow> Fin b \<le> v \<Longrightarrow> Fin a < v"
  by (cases v) simp_all

lemma le_less_double: "w \<le> Fin b \<Longrightarrow> Fin b < Fin a \<Longrightarrow> w < Fin a"
  by (cases w) simp_all

text \<open>
  Claim C7, as amended. For a pixel whose three colour samples lie strictly between 0 and
  255 and a delta with \<open>c = y = 0\<close> and \<open>m \<ge> 2 ^ - 40\<close> (an infinite \<open>m\<close> included), the
  mixed values before clamping satisfy \<open>newG > g\<close>, \<open>newR < r\<close> and \<open>newB < b\<close> in binary64.
\<close>

theorem magenta_crosstalk_sign64:
  assumes "i + 2 < length a"
    and "0 < a ! i" "a ! i < 255"
    and "0 < a ! (i + 1)" "a ! (i + 1) < 255"
    and "0 < a ! (i + 2)" "a ! (i + 2) < 255"
    and "c64 delta = Fin 0" "y64 delta = Fin 0" "Fin (1 / 2 ^ 40) \<le> m64 delta"
  shows "rd64 a (i + 1) < newG64 (rd64 a (i + 1)) (gainR64 delta) (gainG64 delta) (gainB64 delta)
       \<and> newR64 (rd64 a i) (gainR64 delta) (gainG64 delta) (gainB64 delta) < rd64 a i
       \<and> newB64 (rd64 a (i + 2)) (gainR64 delta) (gainG64 delta) (gainB64 delta) < rd64 a (i + 2)"
proof -
  define s :: real where "s = 8106479329266893 / 2 ^ 52"
  define x :: real where "x = 5404319552844595 / 2 ^ 55"
  have S: "STRENGTH64 = Fin s" by (simp add: STRENGTH64_eq s_def)
  have X: "XTALK64 = Fin x" by (simp add: XTALK64_eq x_def)
  have s: "0 < s" "1 \<le> s" by (simp_all add: s_def)
  have x: "0 < x" "1 / 8 \<le> x" by (simp_all add: x_def)
  have big: "- (2 ^ 1024) < (c::real)" if "0 \<le> c" for c
  proof -
    have "- (2 ^ 1024) < (0::real)" by simp
    with that show ?thesis by linarith
  qed
  have small: "(c::real) < 2 ^ 1024" if "c \<le> 255" for c
  proof -
    have "(255::real) < 2 ^ 1024" by simp
    with that show ?thesis by linarith
  qed
  have p40: "fl (1 / 2 ^ 40) = 1 / 2 ^ 40" using fl_dyadic[of 1 40] by simp
  have p43: "fl (1 / 2 ^ 43) = 1 / 2 ^ 43" using fl_dyadic[of 1 43] by simp
  have gR: "gainR64 delta = Fin 0" by (simp add: gainR64_def assms(8) S)
  have gB: "gainB64 delta = Fin 0" by (simp add: gainB64_def assms(9) S)
  have Z: "Fin 0 * XTALK64 = Fin 0" by (simp add: X)
  have gG: "Fin (1 / 2 ^ 40) \<le> gainG64 delta"
    unfolding gainG64_def S
    using assms(10) s by (intro times_ge[where c = "1 / 2 ^ 40"] p40 big) simp_all
  have T: "Fin (1 / 2 ^ 43) \<le> gainG64 delta * XTALK64"
    unfolding X
    using gG x by (intro times_ge[where c = "1 / 2 ^ 40"] p43 big) simp_all
  have green: "Fin G < newG64 (Fin G) (Fin 0) (gainG64 delta) (Fin 0)"
    if "0 \<le> G" "fl (G + 1 / 2 ^ 40) = G + 1 / 2 ^ 40" for G
  proof -
    let ?c = "G + 1 / 2 ^ 40"
    have c0: "0 \<le> ?c" using that(1) by simp
    have 1: "Fin ?c \<le> Fin G + gainG64 delta"
      using gG by (intro plus_ge[where c = "1 / 2 ^ 40"] that(2) big c0) simp_all
    have 2: "Fin ?c \<le> Fin G + gainG64 delta - Fin 0"
      by (rule minus_zero_ge[OF 1 that(2) big[OF c0]])
    have 3: "Fin ?c \<le> Fin G + gainG64 delta - Fin 0 - Fin 0"
      by (rule minus_zero_ge[OF 2 that(2) big[OF c0]])
    have "Fin G < Fin ?c" by simp
    then show ?thesis
      unfolding newG64_def Z using 3 by (rule less_le_double)
  qed
  have down: "Fin G - gainG64 delta * XTALK64 \<le> Fin (G - 1 / 2 ^ 43)"
    if "G \<le> 255" "fl (G - 1 / 2 ^ 43) = G - 1 / 2 ^ 43" for G
  proof -
    have "G - 1 / 2 ^ 43 \<le> 255" using that(1) by simp
    then show ?thesis
      using T by (intro minus_le[where c = "1 / 2 ^ 43"] that(2) small) simp_all
  qed
  have lt: "Fin (G - 1 / 2 ^ 43) < Fin G" for G :: real
    by simp
  have red: "newR64 (Fin G) (Fin 0) (gainG64 delta) (Fin 0) < Fin G"
    if "G \<le> 255" "fl (G - 1 / 2 ^ 43) = G - 1 / 2 ^ 43" "round64 G = Fin G" for G
  proof -
    have p: "Fin G + Fin 0 = Fin G" using that(3) by simp
    have "G - 1 / 2 ^ 43 \<le> 255" using that(1) by simp
    then have "Fin G - gainG64 delta * XTALK64 - Fin 0 \<le> Fin (G - 1 / 2 ^ 43)"
      by (intro minus_zero_le[OF down[OF that(1,2)] that(2)] small)
    then show ?thesis
      unfolding newR64_def Z p using lt by (rule le_less_double)
  qed
  have blue: "newB64 (Fin G) (Fin 0) (gainG64 delta) (Fin 0) < Fin G"
    if "G \<le> 255" "fl (G - 1 / 2 ^ 43) = G - 1 / 2 ^ 43" "round64 G = Fin G" for G
  proof -
    have p: "Fin G + Fin 0 = Fin G" "Fin G - Fin 0 = Fin G" using that(3) by simp_all
    show ?thesis
      unfolding newB64_def Z p using down[OF that(1,2)] lt by (rule le_less_double)
  qed
  have bnd: "real (unat (w :: sample)) \<le> 255" for w
  proof -
    have "unat w < 256" using unsigned_less[of w] by simp
    then have "unat w \<le> 255" by simp
    then have "real (unat w) \<le> real 255" by (rule of_nat_mono)
    then show ?thesis by (simp only: of_nat_numeral)
  qed
  have up: "fl (real (unat w) + 1 / 2 ^ 40) = real (unat w) + 1 / 2 ^ 40" for w :: sample
    using fl_sample_plus[of 1 40 w] by (simp del: of_nat_unat)
  have dn: "fl (real (unat w) - 1 / 2 ^ 43) = real (unat w) - 1 / 2 ^ 43" for w :: sample
    using fl_sample_plus[of "- 1" 43 w] by (simp del: of_nat_unat)
  have rdv: "rd64 a i = Fin (real (unat (a ! i)))" "rd64 a (i + 1) = Fin (real (unat (a ! (i + 1))))"
    "rd64 a (i + 2) = Fin (real (unat (a ! (i + 2))))"
    using assms(1) by (simp_all add: rd64_def del: of_nat_unat)
  show ?thesis
    unfolding gR gB rdv
    by (intro conjI green red blue of_nat_0_le_iff up dn bnd round64_sample)
qed

theorem magenta_crosstalk_sign64_witness:
  "0 + 2 < length grey_pixel
   \<and> 0 < grey_pixel ! 0 \<and> grey_pixel ! 0 < 255
   \<and> 0 < grey_pixel ! (0 + 1) \<and> grey_pixel ! (0 + 1) < 255
   \<and> 0 < grey_pixel ! (0 + 2) \<and> grey_pixel ! (0 + 2) < 255
   \<and> c64 magenta10_64 = Fin 0 \<and> y64 magenta10_64 = Fin 0 \<and> Fin (1 / 2 ^ 40) \<le> m64 magenta10_64
   \<and> rd64 grey_pixel (0 + 1)
       < newG64 (rd64 grey_pixel (0 + 1)) (gainR64 magenta10_64) (gainG64 magenta10_64) (gainB64 magenta10_64)
   \<and> newR64 (rd64 grey_pixel 0) (gainR64 magenta10_64) (gainG64 magenta10_64) (gainB64 magenta10_64)
       < rd64 grey_pixel 0
   \<and> newB64 (rd64 grey_pixel (0 + 2)) (gainR64 magenta10_64) (gainG64 magenta10_64) (gainB64 magenta10_64)
       < rd64 grey_pixel (0 + 2)"
  using magenta_crosstalk_sign64 [of 0 grey_pixel magenta10_64]
  by (simp add: grey_pixel_def magenta10_64_def)

text \<open>
  Without the lower bound the inequalities fail: \<open>m = 2 ^ - 60\<close> is positive, and at the
  sample 128 the additions absorb the gain, so that \<open>newG = g\<close> and \<open>newR = r\<close>.
\<close>

theorem tiny_magenta_absorbed:
  "0 < grey_pixel ! 0 \<and> grey_pixel ! 0 < 255
   \<and> 0 < grey_pixel ! 1 \<and> grey_pixel ! 1 < 255
   \<and> 0 < grey_pixel ! 2 \<and> grey_pixel ! 2 < 255
   \<and> c64 tiny_magenta = Fin 0 \<and> y64 tiny_magenta = Fin 0 \<and> Fin 0 < m64 tiny_magenta
   \<and> newG64 (rd64 grey_pixel 1) (gainR64 tiny_magenta) (gainG64 tiny_magenta) (gainB64 tiny_magenta)
       = rd64 grey_pixel 1
   \<and> newR64 (rd64 grey_pixel 0) (gainR64 tiny_magenta) (gainG64 tiny_magenta) (gainB64 tiny_magenta)
       = rd64 grey_pixel 0
   \<and> \<not> rd64 grey_pixel 1
       < newG64 (rd64 grey_pixel 1) (gainR64 tiny_magenta) (gainG64 tiny_magenta) (gainB64 tiny_magenta)"
  by (simp add: tiny_magenta_def grey_pixel_def rd64_def newR64_def newG64_def
      gainR64_def gainG64_def gainB64_def STRENGTH64_eq XTALK64_eq rhe_def
      round64_eval[where k = "- 60"] round64_eval[where k = "- 62"]
      round64_eval[where k = 6] round64_eval[where k = 7])

text \<open>
  On exact values the clamp helper by itself composes over two equal shifts of a value of
  \<open>[0, 255]\<close>.
\<close>

lemma clamp_twice:
  assumes "0 \<le> x" "x \<le> 255"
  shows "clamp (clamp (Num x + Num k) + Num k) = clamp (Num x + Num (2 * k))"
  using assms by (simp add: clamp_Num min_def max_def)










end
